theory Spec2Isabelle
  imports Main "HOL-Library.Extended_Nat" "HOL-Library.Sublist"
begin

section \<open>JavaScript values and array primitives\<close>

text \<open>
  Page identifiers are JavaScript numbers produced by \<open>parseInt\<close>; they are modelled as
  \<open>int\<close>. The engine only compares them, prints them and uses them as property keys. A
  frame slot holds a page or \<open>null\<close> (\<open>None\<close>). The local \<open>pageToEvict\<close> is \<open>null\<close>, a page, or
  \<open>undefined\<close> (what \<open>shift\<close> and \<open>pop\<close> return on an empty array).
\<close>

datatype evicted = Null | Undefined | Page int

datatype error = Error string | RangeError | TypeError

definition UnsupportedPolicy :: error where
  "UnsupportedPolicy = Error ''Unknown algorithm selected.''"

definition array_includes :: "'a list \<Rightarrow> 'a \<Rightarrow> bool" where
  "array_includes xs x = (x \<in> set xs)"

fun indexOf :: "'a list \<Rightarrow> 'a \<Rightarrow> int" where
  "indexOf [] x = - 1"
| "indexOf (y # ys) x =
     (if y = x then 0 else (let i = indexOf ys x in if i < 0 then - 1 else i + 1))"

text \<open>\<open>frames.indexOf(pageToEvict)\<close>: strict equality, so \<open>undefined\<close> is never found.\<close>

definition frame_indexOf :: "int option list \<Rightarrow> evicted \<Rightarrow> int" where
  "frame_indexOf fs v =
     (case v of Null \<Rightarrow> indexOf fs None | Undefined \<Rightarrow> - 1 | Page q \<Rightarrow> indexOf fs (Some q))"

text \<open>
  \<open>frames[i] = v\<close>. The index always comes from \<open>indexOf\<close>, which yields \<open>-1\<close> or a
  position below the length (lemma \<open>indexOf_range\<close>). At \<open>-1\<close> JavaScript sets a property
  named "-1" and leaves the elements as they are.
\<close>

definition store :: "'a list \<Rightarrow> int \<Rightarrow> 'a \<Rightarrow> 'a list" where
  "store xs i v = (if i < 0 then xs else xs[nat i := v])"

definition shift :: "int list \<Rightarrow> evicted \<times> int list" where
  "shift q = (case q of [] \<Rightarrow> (Undefined, []) | x # xs \<Rightarrow> (Page x, xs))"

definition pop :: "int list \<Rightarrow> evicted \<times> int list" where
  "pop q = (if q = [] then (Undefined, []) else (Page (last q), butlast q))"

text \<open>\<open>arr.splice(start, 1)\<close>: a negative start counts from the end.\<close>

definition splice1 :: "'a list \<Rightarrow> int \<Rightarrow> 'a list" where
  "splice1 xs start =
     (let len = int (length xs);
          k = (if start < 0 then max (len + start) 0 else min start len)
      in take (nat k) xs @ drop (nat k + 1) xs)"

definition slice :: "'a list \<Rightarrow> nat \<Rightarrow> 'a list" where
  "slice xs b = drop b xs"

text \<open>\<open>new Array(frameCount).fill(null)\<close> throws a RangeError on an invalid length.\<close>

definition new_Array_fill_null :: "int \<Rightarrow> error + int option list" where
  "new_Array_fill_null n =
     (if 0 \<le> n \<and> n \<le> 2 ^ 32 - 1 then Inr (replicate (nat n) None) else Inl RangeError)"

subsection \<open>Numbers in template strings\<close>

definition digit_char :: "nat \<Rightarrow> char" where
  "digit_char d = ''0123456789'' ! d"

fun String_nat :: "nat \<Rightarrow> string" where
  "String_nat n =
     (if n < 10 then [digit_char n] else String_nat (n div 10) @ [digit_char (n mod 10)])"

declare String_nat.simps [simp del]

text \<open>
  JavaScript prints a number of magnitude below \<open>10^21\<close> in plain decimal notation and a
  larger one in exponent notation: \<open>String(1e21)\<close> is \<open>"1e+21"\<close>. The digits printed here are
  those of the exact value, which are JavaScript's up to \<open>2^53\<close>; above, JavaScript prints
  the shortest digits that read back as the same number, so a narration can differ from
  the one printed here in the digits of such a page.
\<close>

definition plain_decimal :: "int \<Rightarrow> bool" where
  "plain_decimal p = (\<bar>p\<bar> < 10 ^ 21)"

function int_digits :: "int \<Rightarrow> string" where
  "int_digits n =
     (if n < 10 then [digit_char (nat n)]
      else int_digits (n div 10) @ [digit_char (nat (n mod 10))])"
  by pat_completeness auto
termination
  by (relation "measure nat") auto

declare int_digits.simps [simp del]

definition strip_zeros :: "string \<Rightarrow> string" where
  "strip_zeros ds = rev (dropWhile (\<lambda>c. c = CHR ''0'') (rev ds))"

definition exponent_form :: "int \<Rightarrow> string" where
  "exponent_form n =
     (let ds = int_digits n
      in case strip_zeros ds of
           [] \<Rightarrow> ''0''
         | d # rest \<Rightarrow>
             (d # (if rest = [] then [] else CHR ''.'' # rest)) @ ''e+''
               @ String_nat (length ds - 1))"

definition String_number :: "int \<Rightarrow> string" where
  "String_number n = (if n < 10 ^ 21 then int_digits n else exponent_form n)"

definition String_int :: "int \<Rightarrow> string" where
  "String_int i = (if i < 0 then ''-'' @ String_number (- i) else String_number i)"

definition String_evicted :: "evicted \<Rightarrow> string" where
  "String_evicted v =
     (case v of Null \<Rightarrow> ''null'' | Undefined \<Rightarrow> ''undefined'' | Page q \<Rightarrow> String_int q)"

section \<open>The simulation engine (class SimulationLogic)\<close>

record statistics =
  hits :: nat
  faults :: nat
  total :: nat

record snapshot =
  step :: nat
  page :: int
  frames :: "int option list"
  isHit :: bool
  pageToEvict :: evicted
  helperQueue :: "int list"
  message :: string
  stats :: statistics

definition createState ::
  "nat \<Rightarrow> int \<Rightarrow> int option list \<Rightarrow> bool \<Rightarrow> evicted \<Rightarrow> int list \<Rightarrow> string \<Rightarrow> statistics
     \<Rightarrow> snapshot" where
  "createState i pg fs hit ev hq msg sts =
     \<lparr>step = i, page = pg, frames = fs, isHit = hit, pageToEvict = ev, helperQueue = hq,
      message = msg, stats = sts\<rparr>"

text \<open>
  The variables a run closes over: \<open>frames\<close>, the order list (\<open>fifoQueue\<close> or
  \<open>lruStack\<close>; \<open>runOptimal\<close> has none and leaves it empty), \<open>history\<close> and \<open>stats\<close>.
\<close>

record loop_vars =
  framesV :: "int option list"
  orderV :: "int list"
  historyV :: "snapshot list"
  statsV :: statistics

definition init_vars :: "int option list \<Rightarrow> loop_vars" where
  "init_vars fs =
     \<lparr>framesV = fs, orderV = [], historyV = [], statsV = \<lparr>hits = 0, faults = 0, total = 0\<rparr>\<rparr>"

text \<open>\<open>pages.forEach((page, step) => ...)\<close>, the callback updating the closed-over variables.\<close>

fun forEach :: "('a \<Rightarrow> nat \<Rightarrow> 's \<Rightarrow> 's) \<Rightarrow> 'a list \<Rightarrow> nat \<Rightarrow> 's \<Rightarrow> 's" where
  "forEach f [] i s = s"
| "forEach f (x # xs) i s = forEach f xs (Suc i) (f x i s)"

text \<open>The same loop with a callback that may throw: the first exception ends the run.\<close>

fun forEach_throw ::
  "('a \<Rightarrow> nat \<Rightarrow> 's \<Rightarrow> error + 's) \<Rightarrow> 'a list \<Rightarrow> nat \<Rightarrow> 's \<Rightarrow> error + 's" where
  "forEach_throw f [] i s = Inr s"
| "forEach_throw f (x # xs) i s =
     (case f x i s of Inl e \<Rightarrow> Inl e | Inr s' \<Rightarrow> forEach_throw f xs (Suc i) s')"

definition msg_prefix :: "nat \<Rightarrow> int \<Rightarrow> string" where
  "msg_prefix i pg = ''Step '' @ String_nat (i + 1) @ '' (Page '' @ String_int pg @ ''): ''"

definition msg_hit :: "int \<Rightarrow> string" where
  "msg_hit pg = ''Page '' @ String_int pg @ '' is already in memory. (HIT)''"

definition msg_load :: "int \<Rightarrow> int \<Rightarrow> string" where
  "msg_load pg emptyIndex =
     ''Page '' @ String_int pg @ '' caused a FAULT. Loaded into empty Frame ''
       @ String_int emptyIndex @ ''.''"

definition msg_evict :: "int \<Rightarrow> evicted \<Rightarrow> string \<Rightarrow> int \<Rightarrow> string" where
  "msg_evict pg ev policy evictIndex =
     ''Page '' @ String_int pg @ '' caused a FAULT. Page '' @ String_evicted ev @ '' (''
       @ policy @ '') was evicted from Frame '' @ String_int evictIndex @ ''.''"

definition push_state ::
  "loop_vars \<Rightarrow> nat \<Rightarrow> int \<Rightarrow> int option list \<Rightarrow> bool \<Rightarrow> evicted \<Rightarrow> int list \<Rightarrow> int list
     \<Rightarrow> string \<Rightarrow> statistics \<Rightarrow> loop_vars" where
  "push_state s i pg fs hit ev ord hq msg sts =
     \<lparr>framesV = fs, orderV = ord,
      historyV = historyV s @ [createState i pg fs hit ev hq msg sts], statsV = sts\<rparr>"

subsection \<open>runFIFO\<close>

definition fifo_body :: "int \<Rightarrow> nat \<Rightarrow> loop_vars \<Rightarrow> loop_vars" where
  "fifo_body pg i s =
     (let stats1 = (statsV s)\<lparr>total := total (statsV s) + 1\<rparr>;
          hit = array_includes (framesV s) (Some pg);
          msg0 = msg_prefix i pg
      in if hit then
           push_state s i pg (framesV s) hit Null (orderV s) (orderV s) (msg0 @ msg_hit pg)
             (stats1\<lparr>hits := hits stats1 + 1\<rparr>)
         else
           let stats2 = stats1\<lparr>faults := faults stats1 + 1\<rparr> in
           if array_includes (framesV s) None then
             let emptyIndex = indexOf (framesV s) None;
                 fs = store (framesV s) emptyIndex (Some pg);
                 q = orderV s @ [pg]
             in push_state s i pg fs hit Null q q (msg0 @ msg_load pg emptyIndex) stats2
           else
             let (ev, q1) = shift (orderV s);
                 evictIndex = frame_indexOf (framesV s) ev;
                 fs = store (framesV s) evictIndex (Some pg);
                 q = q1 @ [pg]
             in push_state s i pg fs hit ev q q (msg0 @ msg_evict pg ev ''FIFO'' evictIndex)
                  stats2)"

definition runFIFO :: "int list \<Rightarrow> int \<Rightarrow> error + snapshot list" where
  "runFIFO pages frameCount =
     (case new_Array_fill_null frameCount of
        Inl e \<Rightarrow> Inl e
      | Inr fs \<Rightarrow> Inr (historyV (forEach fifo_body pages 0 (init_vars fs))))"

subsection \<open>runLRU\<close>

definition lru_body :: "int \<Rightarrow> nat \<Rightarrow> loop_vars \<Rightarrow> loop_vars" where
  "lru_body pg i s =
     (let stats1 = (statsV s)\<lparr>total := total (statsV s) + 1\<rparr>;
          hit = array_includes (framesV s) (Some pg);
          msg0 = msg_prefix i pg
      in if hit then
           let st = pg # splice1 (orderV s) (indexOf (orderV s) pg)
           in push_state s i pg (framesV s) hit Null st st (msg0 @ msg_hit pg)
                (stats1\<lparr>hits := hits stats1 + 1\<rparr>)
         else
           let stats2 = stats1\<lparr>faults := faults stats1 + 1\<rparr> in
           if array_includes (framesV s) None then
             let emptyIndex = indexOf (framesV s) None;
                 fs = store (framesV s) emptyIndex (Some pg);
                 st = pg # orderV s
             in push_state s i pg fs hit Null st st (msg0 @ msg_load pg emptyIndex) stats2
           else
             let (ev, st1) = pop (orderV s);
                 evictIndex = frame_indexOf (framesV s) ev;
                 fs = store (framesV s) evictIndex (Some pg);
                 st = pg # st1
             in push_state s i pg fs hit ev st st (msg0 @ msg_evict pg ev ''LRU'' evictIndex)
                  stats2)"

definition runLRU :: "int list \<Rightarrow> int \<Rightarrow> error + snapshot list" where
  "runLRU pages frameCount =
     (case new_Array_fill_null frameCount of
        Inl e \<Rightarrow> Inl e
      | Inr fs \<Rightarrow> Inr (historyV (forEach lru_body pages 0 (init_vars fs))))"

subsection \<open>runOptimal\<close>

text \<open>
  \<open>futureUses\<close> is a plain object keyed by page. It is kept as an association list in
  property-creation order; assigning an existing key keeps the key's place.
\<close>

fun obj_set :: "(int \<times> 'v) list \<Rightarrow> int \<Rightarrow> 'v \<Rightarrow> (int \<times> 'v) list" where
  "obj_set [] k v = [(k, v)]"
| "obj_set ((k', v') # kvs) k v =
     (if k' = k then (k, v) # kvs else (k', v') # obj_set kvs k v)"

definition obj_get :: "(int \<times> 'v) list \<Rightarrow> int \<Rightarrow> 'v option" where
  "obj_get obj k = map_of obj k"

definition is_array_index :: "int \<Rightarrow> bool" where
  "is_array_index k = (0 \<le> k \<and> k < 2 ^ 32 - 1)"

text \<open>
  \<open>Object.keys\<close>: the keys that are array indices in ascending numeric order, then the
  other keys in creation order.
\<close>

definition Object_keys :: "(int \<times> 'v) list \<Rightarrow> int list" where
  "Object_keys obj =
     (let ks = map fst obj
      in sort (filter is_array_index ks) @ filter (\<lambda>k. \<not> is_array_index k) ks)"

text \<open>\<open>arr.reduce(f)\<close> without an initial value throws a TypeError on an empty array.\<close>

definition reduce :: "('a \<Rightarrow> 'a \<Rightarrow> 'a) \<Rightarrow> 'a list \<Rightarrow> error + 'a" where
  "reduce f xs = (case xs of [] \<Rightarrow> Inl TypeError | x # ys \<Rightarrow> Inr (foldl f x ys))"

text \<open>\<open>x > y\<close> on property values; a missing property reads \<open>undefined\<close> and compares false.\<close>

definition js_gt :: "enat option \<Rightarrow> enat option \<Rightarrow> bool" where
  "js_gt a b = (case (a, b) of (Some x, Some y) \<Rightarrow> x > y | _ \<Rightarrow> False)"

definition futureUse :: "int list \<Rightarrow> nat \<Rightarrow> int \<Rightarrow> enat" where
  "futureUse pages i p =
     (let nextUse = indexOf (slice pages (i + 1)) p
      in if nextUse = - 1 then \<infinity> else enat (nat nextUse))"

definition pagesInFrames :: "int option list \<Rightarrow> int list" where
  "pagesInFrames fs = concat (map (\<lambda>x. case x of None \<Rightarrow> [] | Some p \<Rightarrow> [p]) fs)"

definition futureUses :: "int list \<Rightarrow> nat \<Rightarrow> int option list \<Rightarrow> (int \<times> enat) list" where
  "futureUses pages i fs =
     foldl (\<lambda>obj p. obj_set obj p (futureUse pages i p)) [] (pagesInFrames fs)"

text \<open>
  \<open>parseInt(key, 10)\<close> on a key of \<open>futureUses\<close>. A key is \<open>String(p)\<close> for a page \<open>p\<close> and is
  kept here as that page. \<open>parseInt\<close> reads an optional sign and then digits up to the first
  character that is not a digit. On a key in plain decimal notation that gives the page
  back. On a key in exponent notation (\<open>"1e+21"\<close>, \<open>"-2.5e+22"\<close>) it stops at the \<open>.\<close> or the
  \<open>e\<close> and gives the leading digit with the sign. The leading digit is read off the exact
  decimal value: that is the digit JavaScript prints, as for \<open>10^21\<close>, unless the shortest
  printed form of the number rounds up into the next leading digit.
\<close>

function leading_digit :: "int \<Rightarrow> int" where
  "leading_digit n = (if n < 10 then n else leading_digit (n div 10))"
  by pat_completeness auto
termination
  by (relation "measure nat") auto

declare leading_digit.simps [simp del]

definition parseInt_key :: "int \<Rightarrow> int" where
  "parseInt_key k =
     (if plain_decimal k then k
      else (if k < 0 then - 1 else 1) * leading_digit \<bar>k\<bar>)"

definition optimal_victim :: "int list \<Rightarrow> nat \<Rightarrow> int option list \<Rightarrow> error + evicted" where
  "optimal_victim pages i fs =
     (let fu = futureUses pages i fs
      in case reduce (\<lambda>a b. if js_gt (obj_get fu a) (obj_get fu b) then a else b)
                (Object_keys fu) of
           Inl e \<Rightarrow> Inl e
         | Inr k \<Rightarrow> Inr (Page (parseInt_key k)))"

definition opt_body :: "int list \<Rightarrow> int \<Rightarrow> nat \<Rightarrow> loop_vars \<Rightarrow> error + loop_vars" where
  "opt_body pages pg i s =
     (let stats1 = (statsV s)\<lparr>total := total (statsV s) + 1\<rparr>;
          hit = array_includes (framesV s) (Some pg);
          msg0 = msg_prefix i pg;
          future = slice pages (i + 1)
      in if hit then
           Inr (push_state s i pg (framesV s) hit Null [] future (msg0 @ msg_hit pg)
                  (stats1\<lparr>hits := hits stats1 + 1\<rparr>))
         else
           let stats2 = stats1\<lparr>faults := faults stats1 + 1\<rparr> in
           if array_includes (framesV s) None then
             let emptyIndex = indexOf (framesV s) None;
                 fs = store (framesV s) emptyIndex (Some pg)
             in Inr (push_state s i pg fs hit Null [] future (msg0 @ msg_load pg emptyIndex)
                       stats2)
           else
             case optimal_victim pages i (framesV s) of
               Inl e \<Rightarrow> Inl e
             | Inr ev \<Rightarrow>
                 let evictIndex = frame_indexOf (framesV s) ev;
                     fs = store (framesV s) evictIndex (Some pg)
                 in Inr (push_state s i pg fs hit ev [] future
                           (msg0 @ msg_evict pg ev ''Optimal'' evictIndex) stats2))"

definition runOptimal :: "int list \<Rightarrow> int \<Rightarrow> error + snapshot list" where
  "runOptimal pages frameCount =
     (case new_Array_fill_null frameCount of
        Inl e \<Rightarrow> Inl e
      | Inr fs \<Rightarrow>
          (case forEach_throw (opt_body pages) pages 0 (init_vars fs) of
             Inl e \<Rightarrow> Inl e
           | Inr s \<Rightarrow> Inr (historyV s)))"

subsection \<open>run\<close>

definition run :: "int list \<Rightarrow> int \<Rightarrow> string \<Rightarrow> error + snapshot list" where
  "run pages frameCount algorithm =
     (if algorithm = ''FIFO'' then runFIFO pages frameCount
      else if algorithm = ''LRU'' then runLRU pages frameCount
      else if algorithm = ''OPTIMAL'' then runOptimal pages frameCount
      else Inl (Error ''Unknown algorithm selected.''))"

section \<open>The playback controller (class Animator)\<close>
















section \<open>Notions used to state the properties\<close>

text \<open>The loop variables after the first \<open>k\<close> iterations of a \<open>forEach\<close>.\<close>

definition vars_at :: "('a \<Rightarrow> nat \<Rightarrow> 's \<Rightarrow> 's) \<Rightarrow> 'a list \<Rightarrow> 's \<Rightarrow> nat \<Rightarrow> 's" where
  "vars_at f xs s k = forEach f (take k xs) 0 s"

text \<open>
  The FrameSet and the helper structure a step starts from: those of the previous
  snapshot, or the all-empty frames and the empty order list at step 0.
\<close>

definition frames_before :: "int \<Rightarrow> snapshot list \<Rightarrow> nat \<Rightarrow> int option list" where
  "frames_before frameCount h i =
     (if i = 0 then replicate (nat frameCount) None else frames (h ! (i - 1)))"

definition helper_before :: "snapshot list \<Rightarrow> nat \<Rightarrow> int list" where
  "helper_before h i = (if i = 0 then [] else helperQueue (h ! (i - 1)))"

definition valid_input :: "int list \<Rightarrow> int \<Rightarrow> bool" where
  "valid_input pages frameCount = (pages \<noteq> [] \<and> 1 \<le> frameCount \<and> frameCount \<le> 10)"

text \<open>The callback of \<open>runOptimal\<close> with an exception read as "variables unchanged".\<close>

definition opt_step :: "int list \<Rightarrow> int \<Rightarrow> nat \<Rightarrow> loop_vars \<Rightarrow> loop_vars" where
  "opt_step pages pg i s = (case opt_body pages pg i s of Inl e \<Rightarrow> s | Inr s' \<Rightarrow> s')"

definition frames_ok :: "nat \<Rightarrow> loop_vars \<Rightarrow> bool" where
  "frames_ok n s = (length (framesV s) = n \<and> distinct (pagesInFrames (framesV s)))"

definition order_ok :: "nat \<Rightarrow> loop_vars \<Rightarrow> bool" where
  "order_ok n s =
     (frames_ok n s \<and> distinct (orderV s) \<and> set (orderV s) = set (pagesInFrames (framesV s)))"

text \<open>
  The outcome of one step on the frames \<open>fs\<close> it starts from: a hit leaves them as they
  are, a compulsory fault fills the first empty slot, a replacement fault overwrites the
  slot of a resident victim.
\<close>

definition step_result :: "int option list \<Rightarrow> int \<Rightarrow> snapshot \<Rightarrow> bool" where
  "step_result fs pg x =
     (if Some pg \<in> set fs then isHit x \<and> pageToEvict x = Null \<and> frames x = fs
      else if None \<in> set fs then
        \<not> isHit x \<and> pageToEvict x = Null \<and> frames x = fs[nat (indexOf fs None) := Some pg]
      else \<not> isHit x \<and>
        (\<exists>v. pageToEvict x = Page v \<and> Some v \<in> set fs
           \<and> frames x = fs[nat (indexOf fs (Some v)) := Some pg]))"

text \<open>
  What every callback does while the invariant \<open>I\<close> holds: it keeps \<open>I\<close>, pushes one
  snapshot of the new variables, flags it as a hit exactly when the page was resident, and
  counts it. \<open>full_step\<close> adds the outcome on the frames.
\<close>

definition engine_step ::
  "(loop_vars \<Rightarrow> bool) \<Rightarrow> (int \<Rightarrow> nat \<Rightarrow> loop_vars \<Rightarrow> loop_vars) \<Rightarrow> bool" where
  "engine_step I b =
     (\<forall>pg i s. I s \<longrightarrow>
        I (b pg i s) \<and>
        (\<exists>x. historyV (b pg i s) = historyV s @ [x] \<and> step x = i \<and> page x = pg
           \<and> frames x = framesV (b pg i s) \<and> stats x = statsV (b pg i s)
           \<and> (isHit x \<longleftrightarrow> Some pg \<in> set (framesV s))
           \<and> total (statsV (b pg i s)) = total (statsV s) + 1
           \<and> hits (statsV (b pg i s)) = hits (statsV s) + (if isHit x then 1 else 0)
           \<and> faults (statsV (b pg i s)) = faults (statsV s) + (if isHit x then 0 else 1)))"

definition full_step ::
  "(loop_vars \<Rightarrow> bool) \<Rightarrow> (int \<Rightarrow> nat \<Rightarrow> loop_vars \<Rightarrow> loop_vars) \<Rightarrow> bool" where
  "full_step I b =
     (\<forall>pg i s. I s \<longrightarrow>
        I (b pg i s) \<and>
        (\<exists>x. historyV (b pg i s) = historyV s @ [x] \<and> step x = i \<and> page x = pg
           \<and> frames x = framesV (b pg i s) \<and> stats x = statsV (b pg i s)
           \<and> step_result (framesV s) pg x
           \<and> total (statsV (b pg i s)) = total (statsV s) + 1
           \<and> hits (statsV (b pg i s)) = hits (statsV s) + (if isHit x then 1 else 0)
           \<and> faults (statsV (b pg i s)) = faults (statsV s) + (if isHit x then 0 else 1)))"

definition order_step :: "(int \<Rightarrow> nat \<Rightarrow> loop_vars \<Rightarrow> loop_vars) \<Rightarrow> bool" where
  "order_step b = (\<forall>pg i s. helperQueue (last (historyV (b pg i s))) = orderV (b pg i s))"

definition recognised :: "string \<Rightarrow> bool" where
  "recognised algorithm =
     (algorithm = ''FIFO'' \<or> algorithm = ''LRU'' \<or> algorithm = ''OPTIMAL'')"

text \<open>The frames a run starts from once \<open>new Array(frameCount).fill(null)\<close> has succeeded.\<close>

definition start_vars :: "int \<Rightarrow> loop_vars" where
  "start_vars frameCount = init_vars (replicate (nat frameCount) None)"

text \<open>The pages a history loads (its faults) and the pages it evicts, in step order.\<close>

definition loaded_pages :: "snapshot list \<Rightarrow> int list" where
  "loaded_pages h = map page (filter (\<lambda>x. \<not> isHit x) h)"

definition evicted_pages :: "snapshot list \<Rightarrow> int list" where
  "evicted_pages h =
     concat (map (\<lambda>x. case pageToEvict x of Page v \<Rightarrow> [v] | _ \<Rightarrow> []) h)"

text \<open>
  The distinct pages of a reference prefix, most recently referenced first: \<open>remdups\<close>
  keeps the last occurrence of every page.
\<close>

definition recency_order :: "int list \<Rightarrow> int list" where
  "recency_order refs = rev (remdups refs)"

text \<open>
  How far in the future a page is next referenced in the remaining reference string: the
  number of references before its first occurrence, or infinitely far when it does not
  occur again.
\<close>

definition next_use_distance :: "int list \<Rightarrow> int \<Rightarrow> enat" where
  "next_use_distance remaining p =
     (if p \<in> set remaining then enat (length (takeWhile (\<lambda>q. q \<noteq> p) remaining)) else \<infinity>)"

text \<open>The fault count a run ends with: \<open>stats.faults\<close> of its last snapshot.\<close>

definition fault_count :: "int list \<Rightarrow> int \<Rightarrow> string \<Rightarrow> nat option" where
  "fault_count pages frameCount algorithm =
     (case run pages frameCount algorithm of
        Inl e \<Rightarrow> None
      | Inr h \<Rightarrow> if h = [] then Some 0 else Some (faults (stats (last h))))"








text \<open>
  Two OPTIMAL runs on a reference string whose first page is \<open>10^21\<close>, the least page
  JavaScript prints in exponent notation.
\<close>

definition exponent_key_run :: "snapshot list" where
  "exponent_key_run =
     (case run [10 ^ 21, 1, 3, 1] 2 ''OPTIMAL'' of Inl e \<Rightarrow> [] | Inr h \<Rightarrow> h)"

definition unparsed_key_run :: "snapshot list" where
  "unparsed_key_run = (case run [10 ^ 21, 2, 3] 2 ''OPTIMAL'' of Inl e \<Rightarrow> [] | Inr h \<Rightarrow> h)"

section \<open>Array primitives\<close>

lemma indexOf_range: "- 1 \<le> indexOf xs x \<and> indexOf xs x < int (length xs)"
  by (induction xs) (auto simp: Let_def)

lemma indexOf_absent: "x \<notin> set xs \<Longrightarrow> indexOf xs x = - 1"
  by (induction xs) (auto simp: Let_def)

lemma indexOf_present:
  "x \<in> set xs \<Longrightarrow> 0 \<le> indexOf xs x \<and> xs ! nat (indexOf xs x) = x
     \<and> x \<notin> set (take (nat (indexOf xs x)) xs)"
proof (induction xs)
  case Nil
  then show ?case by simp
next
  case (Cons y ys)
  show ?case
  proof (cases "y = x")
    case True
    then show ?thesis by simp
  next
    case False
    with Cons.prems have mem: "x \<in> set ys" by simp
    from Cons.IH [OF mem] have ih: "0 \<le> indexOf ys x" "ys ! nat (indexOf ys x) = x"
      "x \<notin> set (take (nat (indexOf ys x)) ys)" by simp_all
    have n: "nat (indexOf ys x + 1) = Suc (nat (indexOf ys x))" using ih(1) by simp
    show ?thesis using False ih by (simp add: Let_def n)
  qed
qed

lemma indexOf_neg_iff: "indexOf xs x < 0 \<longleftrightarrow> x \<notin> set xs"
  using indexOf_absent [of x xs] indexOf_present [of x xs] by auto

lemma indexOf_lt_length: "x \<in> set xs \<Longrightarrow> nat (indexOf xs x) < length xs"
  using indexOf_range [of xs x] indexOf_present [of x xs] by auto

lemma set_pagesInFrames: "set (pagesInFrames fs) = {p. Some p \<in> set fs}"
  by (induction fs) (auto simp: pagesInFrames_def split: option.splits)

lemma pagesInFrames_append: "pagesInFrames (xs @ ys) = pagesInFrames xs @ pagesInFrames ys"
  by (simp add: pagesInFrames_def)

lemma pagesInFrames_Cons:
  "pagesInFrames (x # xs) = (case x of None \<Rightarrow> [] | Some p \<Rightarrow> [p]) @ pagesInFrames xs"
  by (simp add: pagesInFrames_def)

lemma pagesInFrames_update:
  assumes "j < length fs"
  shows "pagesInFrames (fs[j := Some p])
           = pagesInFrames (take j fs) @ [p] @ pagesInFrames (drop (Suc j) fs)"
  using assms
  by (simp add: upd_conv_take_nth_drop pagesInFrames_append pagesInFrames_Cons)

lemma pagesInFrames_split:
  assumes "j < length fs"
  shows "pagesInFrames fs
           = pagesInFrames (take j fs) @ (case fs ! j of None \<Rightarrow> [] | Some q \<Rightarrow> [q])
               @ pagesInFrames (drop (Suc j) fs)"
proof -
  have "fs = take j fs @ fs ! j # drop (Suc j) fs"
    using assms by (simp add: id_take_nth_drop)
  then have "pagesInFrames fs = pagesInFrames (take j fs @ fs ! j # drop (Suc j) fs)"
    by simp
  then show ?thesis
    by (simp only: pagesInFrames_append pagesInFrames_Cons)
qed

text \<open>Loading a page that is not resident into an empty slot.\<close>

lemma load_empty_slot:
  assumes j: "j < length fs" and e: "fs ! j = None" and d: "distinct (pagesInFrames fs)"
    and new: "Some p \<notin> set fs"
  shows "distinct (pagesInFrames (fs[j := Some p]))"
    and "set (pagesInFrames (fs[j := Some p])) = insert p (set (pagesInFrames fs))"
proof -
  have sp: "pagesInFrames fs = pagesInFrames (take j fs) @ pagesInFrames (drop (Suc j) fs)"
    using pagesInFrames_split [OF j] e by simp
  have pn: "p \<notin> set (pagesInFrames fs)" using new by (simp add: set_pagesInFrames)
  show "distinct (pagesInFrames (fs[j := Some p]))"
    using d pn unfolding pagesInFrames_update [OF j] sp by auto
  show "set (pagesInFrames (fs[j := Some p])) = insert p (set (pagesInFrames fs))"
    unfolding pagesInFrames_update [OF j] sp by auto
qed

text \<open>Replacing a resident page in place by a page that is not resident.\<close>

lemma replace_slot:
  assumes j: "j < length fs" and e: "fs ! j = Some v" and d: "distinct (pagesInFrames fs)"
    and new: "Some p \<notin> set fs"
  shows "distinct (pagesInFrames (fs[j := Some p]))"
    and "set (pagesInFrames (fs[j := Some p])) = insert p (set (pagesInFrames fs) - {v})"
proof -
  have sp: "pagesInFrames fs
              = pagesInFrames (take j fs) @ [v] @ pagesInFrames (drop (Suc j) fs)"
    using pagesInFrames_split [OF j] e by simp
  have pn: "p \<notin> set (pagesInFrames fs)" using new by (simp add: set_pagesInFrames)
  show "distinct (pagesInFrames (fs[j := Some p]))"
    using d pn unfolding pagesInFrames_update [OF j] sp by auto
  show "set (pagesInFrames (fs[j := Some p])) = insert p (set (pagesInFrames fs) - {v})"
    using d unfolding pagesInFrames_update [OF j] sp by auto
qed

section \<open>The \<open>forEach\<close> loop\<close>

lemma forEach_append:
  "forEach f (xs @ ys) i s = forEach f ys (i + length xs) (forEach f xs i s)"
  by (induction xs arbitrary: i s) auto

lemma vars_at_0: "vars_at f xs s 0 = s"
  by (simp add: vars_at_def)

lemma vars_at_Suc:
  "k < length xs \<Longrightarrow> vars_at f xs s (Suc k) = f (xs ! k) k (vars_at f xs s k)"
  by (simp add: vars_at_def take_Suc_conv_app_nth forEach_append)

lemma vars_at_length: "vars_at f xs s (length xs) = forEach f xs 0 s"
  by (simp add: vars_at_def)

lemma forEach_throw_total:
  assumes "\<And>x i s. I s \<Longrightarrow> f x i s = Inr (g x i s) \<and> I (g x i s)" and "I s"
  shows "forEach_throw f xs i s = Inr (forEach g xs i s)"
  using assms(2)
proof (induction xs arbitrary: i s)
  case Nil
  then show ?case by simp
next
  case (Cons x xs)
  from assms(1) [OF Cons.prems] have "f x i s = Inr (g x i s)" "I (g x i s)" by simp_all
  then show ?case using Cons.IH by simp
qed

section \<open>One iteration of each callback\<close>

lemma full_frames_nonempty:
  assumes "None \<notin> set fs" "fs \<noteq> []"
  shows "pagesInFrames fs \<noteq> []"
proof -
  from assms obtain p where "Some p \<in> set fs"
    by (cases fs) (auto, metis option.exhaust)
  then have "p \<in> set (pagesInFrames fs)" by (simp add: set_pagesInFrames)
  then show ?thesis by auto
qed

lemma fifo_body_hit:
  assumes "Some pg \<in> set (framesV s)"
  shows "fifo_body pg i s =
           push_state s i pg (framesV s) True Null (orderV s) (orderV s)
             (msg_prefix i pg @ msg_hit pg)
             ((statsV s)\<lparr>total := total (statsV s) + 1, hits := hits (statsV s) + 1\<rparr>)"
  using assms by (simp add: fifo_body_def array_includes_def Let_def)

lemma fifo_body_load:
  assumes "Some pg \<notin> set (framesV s)" "None \<in> set (framesV s)"
  shows "fifo_body pg i s =
           push_state s i pg ((framesV s)[nat (indexOf (framesV s) None) := Some pg]) False Null
             (orderV s @ [pg]) (orderV s @ [pg])
             (msg_prefix i pg @ msg_load pg (indexOf (framesV s) None))
             ((statsV s)\<lparr>total := total (statsV s) + 1, faults := faults (statsV s) + 1\<rparr>)"
  using assms indexOf_present [of None "framesV s"]
  by (simp add: fifo_body_def array_includes_def Let_def store_def)

lemma fifo_body_evict:
  assumes "Some pg \<notin> set (framesV s)" "None \<notin> set (framesV s)" "orderV s = v # q"
    "Some v \<in> set (framesV s)"
  shows "fifo_body pg i s =
           push_state s i pg ((framesV s)[nat (indexOf (framesV s) (Some v)) := Some pg]) False
             (Page v) (q @ [pg]) (q @ [pg])
             (msg_prefix i pg @ msg_evict pg (Page v) ''FIFO'' (indexOf (framesV s) (Some v)))
             ((statsV s)\<lparr>total := total (statsV s) + 1, faults := faults (statsV s) + 1\<rparr>)"
  using assms indexOf_present [of "Some v" "framesV s"]
  by (simp add: fifo_body_def array_includes_def Let_def store_def shift_def frame_indexOf_def)

lemma remove1_at_first:
  assumes "k < length xs" "xs ! k = x" "x \<notin> set (take k xs)"
  shows "take k xs @ drop (Suc k) xs = remove1 x xs"
proof -
  have "xs = take k xs @ x # drop (Suc k) xs"
    using id_take_nth_drop [OF assms(1)] assms(2) by simp
  then have "remove1 x xs = remove1 x (take k xs @ x # drop (Suc k) xs)" by simp
  also have "\<dots> = take k xs @ drop (Suc k) xs"
    using assms(3) by (simp add: remove1_append)
  finally show ?thesis by simp
qed

lemma splice1_indexOf:
  assumes "x \<in> set xs"
  shows "splice1 xs (indexOf xs x) = remove1 x xs"
proof -
  from indexOf_present [OF assms] indexOf_lt_length [OF assms]
  have k: "0 \<le> indexOf xs x" "xs ! nat (indexOf xs x) = x"
    "x \<notin> set (take (nat (indexOf xs x)) xs)" "nat (indexOf xs x) < length xs"
    by simp_all
  have "splice1 xs (indexOf xs x)
          = take (nat (indexOf xs x)) xs @ drop (Suc (nat (indexOf xs x))) xs"
    using k(1,4) by (simp add: splice1_def Let_def min_def)
  then show ?thesis using remove1_at_first [OF k(4) k(2) k(3)] by simp
qed

lemma lru_body_hit:
  assumes "Some pg \<in> set (framesV s)" "pg \<in> set (orderV s)"
  shows "lru_body pg i s =
           push_state s i pg (framesV s) True Null (pg # remove1 pg (orderV s))
             (pg # remove1 pg (orderV s)) (msg_prefix i pg @ msg_hit pg)
             ((statsV s)\<lparr>total := total (statsV s) + 1, hits := hits (statsV s) + 1\<rparr>)"
  using assms by (simp add: lru_body_def array_includes_def Let_def splice1_indexOf)

lemma lru_body_load:
  assumes "Some pg \<notin> set (framesV s)" "None \<in> set (framesV s)"
  shows "lru_body pg i s =
           push_state s i pg ((framesV s)[nat (indexOf (framesV s) None) := Some pg]) False Null
             (pg # orderV s) (pg # orderV s)
             (msg_prefix i pg @ msg_load pg (indexOf (framesV s) None))
             ((statsV s)\<lparr>total := total (statsV s) + 1, faults := faults (statsV s) + 1\<rparr>)"
  using assms indexOf_present [of None "framesV s"]
  by (simp add: lru_body_def array_includes_def Let_def store_def)

lemma lru_body_evict:
  assumes "Some pg \<notin> set (framesV s)" "None \<notin> set (framesV s)" "orderV s \<noteq> []"
    "Some (last (orderV s)) \<in> set (framesV s)"
  shows "lru_body pg i s =
           push_state s i pg
             ((framesV s)[nat (indexOf (framesV s) (Some (last (orderV s)))) := Some pg]) False
             (Page (last (orderV s))) (pg # butlast (orderV s)) (pg # butlast (orderV s))
             (msg_prefix i pg @ msg_evict pg (Page (last (orderV s))) ''LRU''
                (indexOf (framesV s) (Some (last (orderV s)))))
             ((statsV s)\<lparr>total := total (statsV s) + 1, faults := faults (statsV s) + 1\<rparr>)"
  using assms indexOf_present [of "Some (last (orderV s))" "framesV s"]
  by (simp add: lru_body_def array_includes_def Let_def store_def pop_def frame_indexOf_def)

subsection \<open>The victim chosen by \<open>runOptimal\<close>\<close>

lemma obj_set_keys: "fst ` set (obj_set obj k v) = insert k (fst ` set obj)"
  by (induction obj k v rule: obj_set.induct) auto

lemma map_of_obj_set: "map_of (obj_set obj k v) = (map_of obj)(k \<mapsto> v)"
  by (induction obj k v rule: obj_set.induct) auto

lemma foldl_obj_set_keys:
  "fst ` set (foldl (\<lambda>obj p. obj_set obj p (g p)) obj ps) = fst ` set obj \<union> set ps"
  by (induction ps arbitrary: obj) (auto simp: obj_set_keys)

lemma foldl_obj_set_get:
  "map_of (foldl (\<lambda>obj p. obj_set obj p (g p)) obj ps) k
     = (if k \<in> set ps then Some (g k) else map_of obj k)"
  by (induction ps arbitrary: obj) (auto simp: map_of_obj_set)

lemma futureUses_keys: "fst ` set (futureUses pages i fs) = set (pagesInFrames fs)"
  by (simp add: futureUses_def foldl_obj_set_keys)

lemma futureUses_get:
  "k \<in> set (pagesInFrames fs)
     \<Longrightarrow> obj_get (futureUses pages i fs) k = Some (futureUse pages i k)"
  by (simp add: futureUses_def obj_get_def foldl_obj_set_get)

lemma set_Object_keys: "set (Object_keys obj) = fst ` set obj"
  by (auto simp: Object_keys_def Let_def)

lemma foldl_keeps_greatest:
  assumes "\<forall>k \<in> set (x # ys). m k = Some (g k)"
  shows "foldl (\<lambda>a b. if js_gt (m a) (m b) then a else b) x ys \<in> set (x # ys)
         \<and> (\<forall>k \<in> set (x # ys). g k \<le> g (foldl (\<lambda>a b. if js_gt (m a) (m b) then a else b) x ys))"
  using assms
proof (induction ys arbitrary: x)
  case Nil
  then show ?case by simp
next
  case (Cons y ys)
  let ?f = "\<lambda>a b. if js_gt (m a) (m b) then a else b"
  have mx: "m x = Some (g x)" and my: "m y = Some (g y)" using Cons.prems by simp_all
  have fxy: "?f x y = (if g x > g y then x else y)" by (simp add: js_gt_def mx my)
  have pre: "\<forall>k \<in> set (?f x y # ys). m k = Some (g k)" using Cons.prems by auto
  from Cons.IH [OF pre]
  have r: "foldl ?f (?f x y) ys \<in> set (?f x y # ys)"
    and g: "\<forall>k \<in> set (?f x y # ys). g k \<le> g (foldl ?f (?f x y) ys)" by simp_all
  have top: "g (?f x y) \<le> g (foldl ?f (?f x y) ys)" using g by simp
  have gx: "g x \<le> g (?f x y)" and gy: "g y \<le> g (?f x y)" by (auto simp: fxy)
  have "g x \<le> g (foldl ?f (?f x y) ys)" "g y \<le> g (foldl ?f (?f x y) ys)"
    using gx gy top order_trans by blast+
  moreover have "foldl ?f (?f x y) ys \<in> set (x # y # ys)" using r by (auto split: if_splits)
  ultimately show ?case using g by simp
qed

lemma optimal_victim_key:
  assumes full: "None \<notin> set fs" and ne: "fs \<noteq> []"
  shows "\<exists>v. optimal_victim pages i fs = Inr (Page (parseInt_key v)) \<and> Some v \<in> set fs
           \<and> (\<forall>p. Some p \<in> set fs \<longrightarrow> futureUse pages i p \<le> futureUse pages i v)"
proof -
  let ?fu = "futureUses pages i fs"
  let ?f = "\<lambda>a b. if js_gt (obj_get ?fu a) (obj_get ?fu b) then a else b"
  have keys: "set (Object_keys ?fu) = set (pagesInFrames fs)"
    by (simp add: set_Object_keys futureUses_keys)
  with full_frames_nonempty [OF full ne] obtain x ys where xs: "Object_keys ?fu = x # ys"
    by (cases "Object_keys ?fu") auto
  have m: "\<forall>k \<in> set (x # ys). obj_get ?fu k = Some (futureUse pages i k)"
    using keys xs futureUses_get by metis
  from foldl_keeps_greatest [OF m]
  have r: "foldl ?f x ys \<in> set (x # ys)"
    and g: "\<forall>k \<in> set (x # ys). futureUse pages i k \<le> futureUse pages i (foldl ?f x ys)"
    by simp_all
  have v: "optimal_victim pages i fs = Inr (Page (parseInt_key (foldl ?f x ys)))"
    by (simp add: optimal_victim_def Let_def reduce_def xs)
  have mem: "set (x # ys) = {p. Some p \<in> set fs}"
    using keys xs by (simp add: set_pagesInFrames)
  show ?thesis using v r g mem by blast
qed

lemma optimal_victim_ok:
  assumes full: "None \<notin> set fs" and ne: "fs \<noteq> []"
    and plain: "\<forall>p. Some p \<in> set fs \<longrightarrow> plain_decimal p"
  shows "\<exists>v. optimal_victim pages i fs = Inr (Page v) \<and> Some v \<in> set fs
           \<and> (\<forall>p. Some p \<in> set fs \<longrightarrow> futureUse pages i p \<le> futureUse pages i v)"
proof -
  from optimal_victim_key [OF full ne, of pages i] obtain v
    where v: "optimal_victim pages i fs = Inr (Page (parseInt_key v))" "Some v \<in> set fs"
      "\<forall>p. Some p \<in> set fs \<longrightarrow> futureUse pages i p \<le> futureUse pages i v" by blast
  have "parseInt_key v = v" using plain v(2) by (simp add: parseInt_key_def)
  then show ?thesis using v by auto
qed

lemma opt_body_hit:
  assumes "Some pg \<in> set (framesV s)"
  shows "opt_body pages pg i s =
           Inr (push_state s i pg (framesV s) True Null [] (slice pages (i + 1))
                  (msg_prefix i pg @ msg_hit pg)
                  ((statsV s)\<lparr>total := total (statsV s) + 1, hits := hits (statsV s) + 1\<rparr>))"
  using assms by (simp add: opt_body_def array_includes_def Let_def)

lemma opt_body_load:
  assumes "Some pg \<notin> set (framesV s)" "None \<in> set (framesV s)"
  shows "opt_body pages pg i s =
           Inr (push_state s i pg ((framesV s)[nat (indexOf (framesV s) None) := Some pg]) False
                  Null [] (slice pages (i + 1))
                  (msg_prefix i pg @ msg_load pg (indexOf (framesV s) None))
                  ((statsV s)\<lparr>total := total (statsV s) + 1, faults := faults (statsV s) + 1\<rparr>))"
  using assms indexOf_present [of None "framesV s"]
  by (simp add: opt_body_def array_includes_def Let_def store_def)

lemma opt_body_evict:
  assumes "Some pg \<notin> set (framesV s)" "None \<notin> set (framesV s)"
    "optimal_victim pages i (framesV s) = Inr (Page v)" "Some v \<in> set (framesV s)"
  shows "opt_body pages pg i s =
           Inr (push_state s i pg ((framesV s)[nat (indexOf (framesV s) (Some v)) := Some pg])
                  False (Page v) [] (slice pages (i + 1))
                  (msg_prefix i pg
                     @ msg_evict pg (Page v) ''Optimal'' (indexOf (framesV s) (Some v)))
                  ((statsV s)\<lparr>total := total (statsV s) + 1, faults := faults (statsV s) + 1\<rparr>))"
  using assms indexOf_present [of "Some v" "framesV s"]
  by (simp add: opt_body_def array_includes_def Let_def store_def frame_indexOf_def)

lemma opt_body_evict_any:
  assumes "Some pg \<notin> set (framesV s)" "None \<notin> set (framesV s)"
    "optimal_victim pages i (framesV s) = Inr (Page w)"
  shows "opt_body pages pg i s =
           Inr (push_state s i pg (store (framesV s) (indexOf (framesV s) (Some w)) (Some pg))
                  False (Page w) [] (slice pages (i + 1))
                  (msg_prefix i pg
                     @ msg_evict pg (Page w) ''Optimal'' (indexOf (framesV s) (Some w)))
                  ((statsV s)\<lparr>total := total (statsV s) + 1, faults := faults (statsV s) + 1\<rparr>))"
  using assms by (simp add: opt_body_def array_includes_def Let_def frame_indexOf_def)

text \<open>Storing a page that is not resident at the index of any value, found or not.\<close>

lemma store_any_victim:
  assumes d: "distinct (pagesInFrames fs)" and new: "Some pg \<notin> set fs"
  shows "length (store fs (indexOf fs (Some w)) (Some pg)) = length fs"
    and "distinct (pagesInFrames (store fs (indexOf fs (Some w)) (Some pg)))"
proof -
  show "length (store fs (indexOf fs (Some w)) (Some pg)) = length fs"
    by (simp add: store_def)
  show "distinct (pagesInFrames (store fs (indexOf fs (Some w)) (Some pg)))"
  proof (cases "Some w \<in> set fs")
    case True
    from indexOf_lt_length [OF True] indexOf_present [OF True]
    have j: "nat (indexOf fs (Some w)) < length fs" "fs ! nat (indexOf fs (Some w)) = Some w"
      "0 \<le> indexOf fs (Some w)" by simp_all
    show ?thesis using replace_slot(1) [OF j(1,2) d new] j(3) by (simp add: store_def)
  next
    case False
    then show ?thesis using d by (simp add: store_def indexOf_absent)
  qed
qed

lemma set_store: "set (store xs j v) \<subseteq> insert v (set xs)"
proof (cases "j < 0")
  case True
  then show ?thesis by (auto simp: store_def)
next
  case False
  then show ?thesis using set_update_subset_insert [of xs "nat j" v] by (simp add: store_def)
qed

subsection \<open>Each callback is an engine step\<close>

lemma step_result_hit: "step_result fs pg x \<Longrightarrow> isHit x \<longleftrightarrow> Some pg \<in> set fs"
  by (auto simp: step_result_def split: if_splits)

lemma full_step_engine:
  assumes "full_step I b"
  shows "engine_step I b"
  unfolding engine_step_def
proof (intro allI impI)
  fix pg i s
  assume I: "I s"
  from assms I obtain x
    where inv: "I (b pg i s)"
      and x: "historyV (b pg i s) = historyV s @ [x]" "step x = i" "page x = pg"
        "frames x = framesV (b pg i s)" "stats x = statsV (b pg i s)"
        "step_result (framesV s) pg x"
        "total (statsV (b pg i s)) = total (statsV s) + 1"
        "hits (statsV (b pg i s)) = hits (statsV s) + (if isHit x then 1 else 0)"
        "faults (statsV (b pg i s)) = faults (statsV s) + (if isHit x then 0 else 1)"
    unfolding full_step_def by blast
  have "isHit x \<longleftrightarrow> Some pg \<in> set (framesV s)" using step_result_hit [OF x(6)] .
  with inv x show "I (b pg i s) \<and>
        (\<exists>x. historyV (b pg i s) = historyV s @ [x] \<and> step x = i \<and> page x = pg
           \<and> frames x = framesV (b pg i s) \<and> stats x = statsV (b pg i s)
           \<and> (isHit x \<longleftrightarrow> Some pg \<in> set (framesV s))
           \<and> total (statsV (b pg i s)) = total (statsV s) + 1
           \<and> hits (statsV (b pg i s)) = hits (statsV s) + (if isHit x then 1 else 0)
           \<and> faults (statsV (b pg i s))
               = faults (statsV s) + (if isHit x then 0 else 1))"
    by blast
qed

lemma full_step_result:
  assumes "full_step I b" and "I s"
  shows "step_result (framesV s) pg (last (historyV (b pg i s)))"
proof -
  from assms obtain x
    where "historyV (b pg i s) = historyV s @ [x]" "step_result (framesV s) pg x"
    unfolding full_step_def by blast
  then show ?thesis by simp
qed

lemma first_empty_slot:
  assumes "None \<in> set fs"
  shows "nat (indexOf fs None) < length fs" and "fs ! nat (indexOf fs None) = None"
  using indexOf_lt_length [OF assms] indexOf_present [OF assms] by simp_all

lemma victim_slot:
  assumes "Some v \<in> set fs"
  shows "nat (indexOf fs (Some v)) < length fs" and "fs ! nat (indexOf fs (Some v)) = Some v"
  using indexOf_lt_length [OF assms] indexOf_present [OF assms] by simp_all

lemma fifo_full_step: "full_step (\<lambda>s. 0 < n \<and> order_ok n s) fifo_body"
  unfolding full_step_def
proof (intro allI impI)
  fix pg i s
  assume "0 < n \<and> order_ok n s"
  then have n: "0 < n" and len: "length (framesV s) = n"
    and d: "distinct (pagesInFrames (framesV s))" and dq: "distinct (orderV s)"
    and sq: "set (orderV s) = set (pagesInFrames (framesV s))"
    by (simp_all add: order_ok_def frames_ok_def)
  consider (hit) "Some pg \<in> set (framesV s)"
    | (load) "Some pg \<notin> set (framesV s)" "None \<in> set (framesV s)"
    | (evict) "Some pg \<notin> set (framesV s)" "None \<notin> set (framesV s)" by blast
  then show "(0 < n \<and> order_ok n (fifo_body pg i s)) \<and>
        (\<exists>x. historyV (fifo_body pg i s) = historyV s @ [x] \<and> step x = i \<and> page x = pg
           \<and> frames x = framesV (fifo_body pg i s) \<and> stats x = statsV (fifo_body pg i s)
           \<and> step_result (framesV s) pg x
           \<and> total (statsV (fifo_body pg i s)) = total (statsV s) + 1
           \<and> hits (statsV (fifo_body pg i s)) = hits (statsV s) + (if isHit x then 1 else 0)
           \<and> faults (statsV (fifo_body pg i s))
               = faults (statsV s) + (if isHit x then 0 else 1))"
  proof cases
    case hit
    show ?thesis
      unfolding fifo_body_hit [OF hit] using n len d dq sq hit
      by (simp add: push_state_def createState_def step_result_def order_ok_def frames_ok_def)
  next
    case load
    note j = first_empty_slot [OF load(2)]
    note L = load_empty_slot [OF j d load(1)]
    have fresh: "pg \<notin> set (orderV s)" using load(1) sq by (simp add: set_pagesInFrames)
    show ?thesis
      unfolding fifo_body_load [OF load] using n len dq sq load fresh L
      by (simp add: push_state_def createState_def step_result_def order_ok_def frames_ok_def)
  next
    case evict
    have "framesV s \<noteq> []" using n len by auto
    from full_frames_nonempty [OF evict(2) this] sq obtain v q where q: "orderV s = v # q"
      by (cases "orderV s") auto
    have v: "Some v \<in> set (framesV s)" using q sq by (auto simp: set_pagesInFrames)
    note j = victim_slot [OF v]
    note L = replace_slot [OF j d evict(1)]
    have fresh: "pg \<notin> set (orderV s)" using evict(1) sq by (simp add: set_pagesInFrames)
    have sq': "set (q @ [pg]) = insert pg (set (pagesInFrames (framesV s)) - {v})"
      using q dq sq by auto
    have dq': "distinct (q @ [pg])" using q dq fresh by auto
    have res: "step_result (framesV s) pg
        (createState i pg ((framesV s)[nat (indexOf (framesV s) (Some v)) := Some pg]) False
           (Page v) (q @ [pg])
           (msg_prefix i pg @ msg_evict pg (Page v) ''FIFO'' (indexOf (framesV s) (Some v)))
           ((statsV s)\<lparr>total := total (statsV s) + 1, faults := faults (statsV s) + 1\<rparr>))"
      using evict v by (simp add: step_result_def createState_def)
    show ?thesis
      unfolding fifo_body_evict [OF evict q v] using n len L sq' dq' res
      by (simp add: push_state_def order_ok_def frames_ok_def) (simp add: createState_def)
  qed
qed

lemma fifo_engine_step: "engine_step (\<lambda>s. 0 < n \<and> order_ok n s) fifo_body"
  using full_step_engine [OF fifo_full_step] .

lemma fifo_order_step: "order_step fifo_body"
  by (simp add: order_step_def fifo_body_def Let_def push_state_def createState_def
      split: prod.splits)

lemma lru_full_step: "full_step (\<lambda>s. 0 < n \<and> order_ok n s) lru_body"
  unfolding full_step_def
proof (intro allI impI)
  fix pg i s
  assume "0 < n \<and> order_ok n s"
  then have n: "0 < n" and len: "length (framesV s) = n"
    and d: "distinct (pagesInFrames (framesV s))" and dq: "distinct (orderV s)"
    and sq: "set (orderV s) = set (pagesInFrames (framesV s))"
    by (simp_all add: order_ok_def frames_ok_def)
  consider (hit) "Some pg \<in> set (framesV s)"
    | (load) "Some pg \<notin> set (framesV s)" "None \<in> set (framesV s)"
    | (evict) "Some pg \<notin> set (framesV s)" "None \<notin> set (framesV s)" by blast
  then show "(0 < n \<and> order_ok n (lru_body pg i s)) \<and>
        (\<exists>x. historyV (lru_body pg i s) = historyV s @ [x] \<and> step x = i \<and> page x = pg
           \<and> frames x = framesV (lru_body pg i s) \<and> stats x = statsV (lru_body pg i s)
           \<and> step_result (framesV s) pg x
           \<and> total (statsV (lru_body pg i s)) = total (statsV s) + 1
           \<and> hits (statsV (lru_body pg i s)) = hits (statsV s) + (if isHit x then 1 else 0)
           \<and> faults (statsV (lru_body pg i s))
               = faults (statsV s) + (if isHit x then 0 else 1))"
  proof cases
    case hit
    have mem: "pg \<in> set (orderV s)" using hit sq by (simp add: set_pagesInFrames)
    have sq': "set (pg # remove1 pg (orderV s)) = set (pagesInFrames (framesV s))"
      using mem dq sq by auto
    have dq': "distinct (pg # remove1 pg (orderV s))" using dq by auto
    show ?thesis
      unfolding lru_body_hit [OF hit mem] using n len d dq' sq' hit
      by (simp add: push_state_def createState_def step_result_def order_ok_def frames_ok_def)
  next
    case load
    note j = first_empty_slot [OF load(2)]
    note L = load_empty_slot [OF j d load(1)]
    have fresh: "pg \<notin> set (orderV s)" using load(1) sq by (simp add: set_pagesInFrames)
    show ?thesis
      unfolding lru_body_load [OF load] using n len dq sq load fresh L
      by (simp add: push_state_def createState_def step_result_def order_ok_def frames_ok_def)
  next
    case evict
    have "framesV s \<noteq> []" using n len by auto
    from full_frames_nonempty [OF evict(2) this] sq have q: "orderV s \<noteq> []" by auto
    let ?v = "last (orderV s)"
    have v: "Some ?v \<in> set (framesV s)"
      using q sq last_in_set [OF q] by (auto simp: set_pagesInFrames)
    note j = victim_slot [OF v]
    note L = replace_slot [OF j d evict(1)]
    have fresh: "pg \<notin> set (orderV s)" using evict(1) sq by (simp add: set_pagesInFrames)
    have split: "orderV s = butlast (orderV s) @ [?v]" using q by simp
    have dsplit: "distinct (butlast (orderV s) @ [?v])" using dq split by simp
    have bl: "set (butlast (orderV s)) = set (orderV s) - {?v}"
    proof -
      have "set (orderV s) = insert ?v (set (butlast (orderV s)))"
        using arg_cong [OF split, of set] by simp
      moreover have "?v \<notin> set (butlast (orderV s))" using dsplit by simp
      ultimately show ?thesis by auto
    qed
    have sq': "set (pg # butlast (orderV s))
                 = insert pg (set (pagesInFrames (framesV s)) - {?v})"
      using bl sq by simp
    have dq': "distinct (pg # butlast (orderV s))"
      using dq fresh by (auto simp: distinct_butlast dest: in_set_butlastD)
    have res: "step_result (framesV s) pg
        (createState i pg ((framesV s)[nat (indexOf (framesV s) (Some ?v)) := Some pg]) False
           (Page ?v) (pg # butlast (orderV s))
           (msg_prefix i pg @ msg_evict pg (Page ?v) ''LRU'' (indexOf (framesV s) (Some ?v)))
           ((statsV s)\<lparr>total := total (statsV s) + 1, faults := faults (statsV s) + 1\<rparr>))"
      using evict v by (simp add: step_result_def createState_def)
    show ?thesis
      unfolding lru_body_evict [OF evict q v] using n len L sq' dq' res
      by (simp add: push_state_def order_ok_def frames_ok_def) (simp add: createState_def)
  qed
qed

lemma lru_engine_step: "engine_step (\<lambda>s. 0 < n \<and> order_ok n s) lru_body"
  using full_step_engine [OF lru_full_step] .

lemma lru_order_step: "order_step lru_body"
  by (simp add: order_step_def lru_body_def Let_def push_state_def createState_def
      split: prod.splits)

lemma opt_step_cases:
  assumes "framesV s \<noteq> []"
  shows "opt_body pages pg i s = Inr (opt_step pages pg i s)"
proof -
  consider (hit) "Some pg \<in> set (framesV s)"
    | (load) "Some pg \<notin> set (framesV s)" "None \<in> set (framesV s)"
    | (evict) "Some pg \<notin> set (framesV s)" "None \<notin> set (framesV s)" by blast
  then show ?thesis
  proof cases
    case hit
    show ?thesis by (simp add: opt_step_def opt_body_hit [OF hit])
  next
    case load
    show ?thesis by (simp add: opt_step_def opt_body_load [OF load])
  next
    case evict
    from optimal_victim_key [OF evict(2) assms, of pages i] obtain v
      where v: "optimal_victim pages i (framesV s) = Inr (Page (parseInt_key v))"
      by blast
    show ?thesis by (simp add: opt_step_def opt_body_evict_any [OF evict v])
  qed
qed

text \<open>
  The callback of \<open>runOptimal\<close> is an engine step for every page, whatever value the
  parsed key has: a value that is not resident leaves the frames as they are.
\<close>

lemma opt_engine_step: "engine_step (\<lambda>s. 0 < n \<and> frames_ok n s) (opt_step pages)"
  unfolding engine_step_def
proof (intro allI impI)
  fix pg i s
  assume "0 < n \<and> frames_ok n s"
  then have n: "0 < n" and len: "length (framesV s) = n"
    and d: "distinct (pagesInFrames (framesV s))"
    by (simp_all add: frames_ok_def)
  have ne: "framesV s \<noteq> []" using n len by auto
  consider (hit) "Some pg \<in> set (framesV s)"
    | (load) "Some pg \<notin> set (framesV s)" "None \<in> set (framesV s)"
    | (evict) "Some pg \<notin> set (framesV s)" "None \<notin> set (framesV s)" by blast
  then show "(0 < n \<and> frames_ok n (opt_step pages pg i s)) \<and>
        (\<exists>x. historyV (opt_step pages pg i s) = historyV s @ [x] \<and> step x = i \<and> page x = pg
           \<and> frames x = framesV (opt_step pages pg i s) \<and> stats x = statsV (opt_step pages pg i s)
           \<and> (isHit x \<longleftrightarrow> Some pg \<in> set (framesV s))
           \<and> total (statsV (opt_step pages pg i s)) = total (statsV s) + 1
           \<and> hits (statsV (opt_step pages pg i s)) = hits (statsV s) + (if isHit x then 1 else 0)
           \<and> faults (statsV (opt_step pages pg i s))
               = faults (statsV s) + (if isHit x then 0 else 1))"
  proof cases
    case hit
    have eq: "opt_step pages pg i s =
        push_state s i pg (framesV s) True Null [] (slice pages (i + 1))
          (msg_prefix i pg @ msg_hit pg)
          ((statsV s)\<lparr>total := total (statsV s) + 1, hits := hits (statsV s) + 1\<rparr>)"
      by (simp add: opt_step_def opt_body_hit [OF hit])
    show ?thesis
      unfolding eq using n len d hit
      by (simp add: push_state_def createState_def frames_ok_def)
  next
    case load
    note j = first_empty_slot [OF load(2)]
    note L = load_empty_slot [OF j d load(1)]
    have eq: "opt_step pages pg i s =
        push_state s i pg ((framesV s)[nat (indexOf (framesV s) None) := Some pg]) False
          Null [] (slice pages (i + 1))
          (msg_prefix i pg @ msg_load pg (indexOf (framesV s) None))
          ((statsV s)\<lparr>total := total (statsV s) + 1, faults := faults (statsV s) + 1\<rparr>)"
      by (simp add: opt_step_def opt_body_load [OF load])
    show ?thesis
      unfolding eq using n len load L
      by (simp add: push_state_def createState_def frames_ok_def)
  next
    case evict
    from optimal_victim_key [OF evict(2) ne, of pages i] obtain v
      where v: "optimal_victim pages i (framesV s) = Inr (Page (parseInt_key v))"
      by blast
    note L = store_any_victim [OF d evict(1), of "parseInt_key v"]
    have eq: "opt_step pages pg i s =
        push_state s i pg
          (store (framesV s) (indexOf (framesV s) (Some (parseInt_key v))) (Some pg))
          False (Page (parseInt_key v)) [] (slice pages (i + 1))
          (msg_prefix i pg @ msg_evict pg (Page (parseInt_key v)) ''Optimal''
             (indexOf (framesV s) (Some (parseInt_key v))))
          ((statsV s)\<lparr>total := total (statsV s) + 1, faults := faults (statsV s) + 1\<rparr>)"
      by (simp add: opt_step_def opt_body_evict_any [OF evict v])
    show ?thesis
      unfolding eq using n len L evict
      by (simp add: push_state_def createState_def frames_ok_def)
  qed
qed

text \<open>
  While every resident page prints in plain decimal notation, the parsed key is the chosen
  page and the step has the full outcome on the frames.
\<close>

lemma opt_step_result:
  assumes inv: "0 < n \<and> frames_ok n s"
    and plain: "\<forall>p. Some p \<in> set (framesV s) \<longrightarrow> plain_decimal p"
  shows "step_result (framesV s) pg (last (historyV (opt_step pages pg i s)))"
proof -
  from inv have ne: "framesV s \<noteq> []" by (auto simp: frames_ok_def)
  consider (hit) "Some pg \<in> set (framesV s)"
    | (load) "Some pg \<notin> set (framesV s)" "None \<in> set (framesV s)"
    | (evict) "Some pg \<notin> set (framesV s)" "None \<notin> set (framesV s)" by blast
  then show ?thesis
  proof cases
    case hit
    then show ?thesis
      by (simp add: opt_step_def opt_body_hit [OF hit] push_state_def createState_def
          step_result_def)
  next
    case load
    then show ?thesis
      by (simp add: opt_step_def opt_body_load [OF load] push_state_def createState_def
          step_result_def)
  next
    case evict
    from optimal_victim_ok [OF evict(2) ne plain, of pages i] obtain v
      where v: "optimal_victim pages i (framesV s) = Inr (Page v)" "Some v \<in> set (framesV s)"
      by blast
    show ?thesis
      using evict v(2)
      by (simp add: opt_step_def opt_body_evict [OF evict v] push_state_def createState_def
          step_result_def)
  qed
qed

lemma opt_step_frames: "set (framesV (opt_step pages pg i s)) \<subseteq> insert (Some pg) (set (framesV s))"
proof (cases "opt_body pages pg i s")
  case (Inl e)
  then show ?thesis by (auto simp: opt_step_def)
next
  case (Inr s')
  then have "framesV s' = framesV s \<or> (\<exists>j. framesV s' = store (framesV s) j (Some pg))"
    by (auto simp: opt_body_def Let_def push_state_def split: if_splits sum.splits)
  then have "set (framesV s') \<subseteq> insert (Some pg) (set (framesV s))"
  proof
    assume "framesV s' = framesV s"
    then show ?thesis by auto
  next
    assume "\<exists>j. framesV s' = store (framesV s) j (Some pg)"
    then obtain j where "framesV s' = store (framesV s) j (Some pg)" by blast
    then show ?thesis using set_store [of "framesV s" j "Some pg"] by simp
  qed
  then show ?thesis using Inr by (simp add: opt_step_def)
qed

section \<open>Whole runs\<close>

lemma engine_inv:
  assumes "engine_step I b" "I s0" "k \<le> length pages"
  shows "I (vars_at b pages s0 k)"
  using assms(3)
proof (induction k)
  case 0
  then show ?case using assms(2) by (simp add: vars_at_0)
next
  case (Suc k)
  then have "I (vars_at b pages s0 k)" and "k < length pages" by simp_all
  then show ?case using assms(1) by (simp add: vars_at_Suc engine_step_def)
qed

lemma engine_history:
  assumes "engine_step I b" "I s0" "k \<le> length pages"
  shows "historyV (vars_at b pages s0 k)
           = historyV s0 @ map (\<lambda>j. last (historyV (vars_at b pages s0 (Suc j)))) [0..<k]"
  using assms(3)
proof (induction k)
  case 0
  then show ?case by (simp add: vars_at_0)
next
  case (Suc k)
  then have k: "k < length pages" and kl: "k \<le> length pages" by simp_all
  have inv: "I (vars_at b pages s0 k)" using engine_inv [OF assms(1,2) kl] .
  from assms(1) inv obtain x
    where "historyV (b (pages ! k) k (vars_at b pages s0 k))
             = historyV (vars_at b pages s0 k) @ [x]"
    unfolding engine_step_def by blast
  then have "historyV (vars_at b pages s0 (Suc k))
               = historyV (vars_at b pages s0 k)
                   @ [last (historyV (vars_at b pages s0 (Suc k)))]"
    by (simp add: vars_at_Suc [OF k])
  then show ?case using Suc.IH [OF kl] by simp
qed

lemma engine_length:
  assumes "engine_step I b" "I s0" "historyV s0 = []"
  shows "length (historyV (forEach b pages 0 s0)) = length pages"
  using engine_history [OF assms(1,2), of "length pages" pages] assms(3)
  by (simp add: vars_at_length)

lemma engine_nth:
  assumes "engine_step I b" "I s0" "historyV s0 = []" "i < length pages"
  shows "historyV (forEach b pages 0 s0) ! i = last (historyV (vars_at b pages s0 (Suc i)))"
  using engine_history [OF assms(1,2), of "length pages" pages] assms(3,4)
  by (simp add: vars_at_length)

text \<open>
  Snapshot \<open>i\<close> of a run is what iteration \<open>i\<close> pushes, starting from the variables left
  by the iterations before it.
\<close>

lemma engine_at:
  assumes E: "engine_step I b" and I0: "I s0" and h0: "historyV s0 = []"
    and i: "i < length pages"
  shows "I (vars_at b pages s0 i)"
    and "historyV (vars_at b pages s0 (Suc i))
           = historyV (vars_at b pages s0 i) @ [historyV (forEach b pages 0 s0) ! i]"
    and "vars_at b pages s0 (Suc i) = b (pages ! i) i (vars_at b pages s0 i)"
proof -
  have il: "i \<le> length pages" using i by simp
  show inv: "I (vars_at b pages s0 i)" using engine_inv [OF E I0 il] .
  show eq: "vars_at b pages s0 (Suc i) = b (pages ! i) i (vars_at b pages s0 i)"
    using vars_at_Suc [OF i] .
  from E inv obtain x
    where "historyV (b (pages ! i) i (vars_at b pages s0 i))
             = historyV (vars_at b pages s0 i) @ [x]"
    unfolding engine_step_def by blast
  then show "historyV (vars_at b pages s0 (Suc i))
           = historyV (vars_at b pages s0 i) @ [historyV (forEach b pages 0 s0) ! i]"
    unfolding engine_nth [OF E I0 h0 i] eq by simp
qed

lemma engine_snapshot:
  assumes E: "engine_step I b" and I0: "I s0" and h0: "historyV s0 = []"
    and i: "i < length pages"
  shows "step (historyV (forEach b pages 0 s0) ! i) = i"
    and "page (historyV (forEach b pages 0 s0) ! i) = pages ! i"
    and "frames (historyV (forEach b pages 0 s0) ! i) = framesV (vars_at b pages s0 (Suc i))"
    and "stats (historyV (forEach b pages 0 s0) ! i) = statsV (vars_at b pages s0 (Suc i))"
    and "isHit (historyV (forEach b pages 0 s0) ! i)
           \<longleftrightarrow> Some (pages ! i) \<in> set (framesV (vars_at b pages s0 i))"
    and "total (statsV (vars_at b pages s0 (Suc i)))
           = total (statsV (vars_at b pages s0 i)) + 1"
    and "hits (statsV (vars_at b pages s0 (Suc i)))
           = hits (statsV (vars_at b pages s0 i))
               + (if isHit (historyV (forEach b pages 0 s0) ! i) then 1 else 0)"
    and "faults (statsV (vars_at b pages s0 (Suc i)))
           = faults (statsV (vars_at b pages s0 i))
               + (if isHit (historyV (forEach b pages 0 s0) ! i) then 0 else 1)"
proof -
  note A = engine_at [OF E I0 h0 i]
  from E A(1) obtain x
    where x: "historyV (b (pages ! i) i (vars_at b pages s0 i))
                = historyV (vars_at b pages s0 i) @ [x]"
      "step x = i" "page x = pages ! i"
      "frames x = framesV (b (pages ! i) i (vars_at b pages s0 i))"
      "stats x = statsV (b (pages ! i) i (vars_at b pages s0 i))"
      "isHit x \<longleftrightarrow> Some (pages ! i) \<in> set (framesV (vars_at b pages s0 i))"
      "total (statsV (b (pages ! i) i (vars_at b pages s0 i)))
         = total (statsV (vars_at b pages s0 i)) + 1"
      "hits (statsV (b (pages ! i) i (vars_at b pages s0 i)))
         = hits (statsV (vars_at b pages s0 i)) + (if isHit x then 1 else 0)"
      "faults (statsV (b (pages ! i) i (vars_at b pages s0 i)))
         = faults (statsV (vars_at b pages s0 i)) + (if isHit x then 0 else 1)"
    unfolding engine_step_def by blast
  have xi: "x = historyV (forEach b pages 0 s0) ! i"
    using x(1) A(2) unfolding A(3) by simp
  show "step (historyV (forEach b pages 0 s0) ! i) = i" using x(2) xi by simp
  show "page (historyV (forEach b pages 0 s0) ! i) = pages ! i" using x(3) xi by simp
  show "frames (historyV (forEach b pages 0 s0) ! i) = framesV (vars_at b pages s0 (Suc i))"
    using x(4) xi A(3) by simp
  show "stats (historyV (forEach b pages 0 s0) ! i) = statsV (vars_at b pages s0 (Suc i))"
    using x(5) xi A(3) by simp
  show "isHit (historyV (forEach b pages 0 s0) ! i)
           \<longleftrightarrow> Some (pages ! i) \<in> set (framesV (vars_at b pages s0 i))"
    using x(6) xi by simp
  show "total (statsV (vars_at b pages s0 (Suc i)))
           = total (statsV (vars_at b pages s0 i)) + 1" using x(7) A(3) by simp
  show "hits (statsV (vars_at b pages s0 (Suc i)))
           = hits (statsV (vars_at b pages s0 i))
               + (if isHit (historyV (forEach b pages 0 s0) ! i) then 1 else 0)"
    using x(8) xi A(3) by simp
  show "faults (statsV (vars_at b pages s0 (Suc i)))
           = faults (statsV (vars_at b pages s0 i))
               + (if isHit (historyV (forEach b pages 0 s0) ! i) then 0 else 1)"
    using x(9) xi A(3) by simp
qed

lemma engine_totals:
  assumes E: "engine_step I b" and I0: "I s0" and h0: "historyV s0 = []"
    and k: "k \<le> length pages"
  shows "total (statsV (vars_at b pages s0 k)) = total (statsV s0) + k
       \<and> hits (statsV (vars_at b pages s0 k))
           = hits (statsV s0) + length (filter isHit (take k (historyV (forEach b pages 0 s0))))
       \<and> hits (statsV (vars_at b pages s0 k)) + faults (statsV (vars_at b pages s0 k))
           = hits (statsV s0) + faults (statsV s0) + k"
  using k
proof (induction k)
  case 0
  then show ?case by (simp add: vars_at_0)
next
  case (Suc k)
  then have kl: "k < length pages" by simp
  note S = engine_snapshot [OF E I0 h0 kl]
  have tk: "take (Suc k) (historyV (forEach b pages 0 s0))
              = take k (historyV (forEach b pages 0 s0)) @ [historyV (forEach b pages 0 s0) ! k]"
    using kl engine_length [OF E I0 h0, of pages] by (simp add: take_Suc_conv_app_nth)
  from Suc.IH kl
  have ih: "total (statsV (vars_at b pages s0 k)) = total (statsV s0) + k"
    "hits (statsV (vars_at b pages s0 k))
       = hits (statsV s0) + length (filter isHit (take k (historyV (forEach b pages 0 s0))))"
    "hits (statsV (vars_at b pages s0 k)) + faults (statsV (vars_at b pages s0 k))
       = hits (statsV s0) + faults (statsV s0) + k"
    by simp_all
  show ?case
    unfolding S(6) S(7) S(8) tk using ih by simp
qed

lemma engine_frames_before:
  assumes E: "engine_step I b" and I0: "I s0" and h0: "historyV s0 = []"
    and i: "i \<le> length pages"
  shows "framesV (vars_at b pages s0 i)
           = (if i = 0 then framesV s0 else frames (historyV (forEach b pages 0 s0) ! (i - 1)))"
proof (cases i)
  case 0
  then show ?thesis by (simp add: vars_at_0)
next
  case (Suc j)
  then have j: "j < length pages" using i by simp
  show ?thesis using engine_snapshot(3) [OF E I0 h0 j] Suc by simp
qed

lemma engine_order:
  assumes E: "engine_step I b" and O: "order_step b" and I0: "I s0"
    and h0: "historyV s0 = []" and i: "i < length pages"
  shows "helperQueue (historyV (forEach b pages 0 s0) ! i) = orderV (vars_at b pages s0 (Suc i))"
  using O unfolding engine_nth [OF E I0 h0 i] vars_at_Suc [OF i] order_step_def by blast

lemma engine_order_before:
  assumes E: "engine_step I b" and O: "order_step b" and I0: "I s0"
    and h0: "historyV s0 = []" and i: "i \<le> length pages"
  shows "orderV (vars_at b pages s0 i)
           = (if i = 0 then orderV s0
              else helperQueue (historyV (forEach b pages 0 s0) ! (i - 1)))"
proof (cases i)
  case 0
  then show ?thesis by (simp add: vars_at_0)
next
  case (Suc j)
  then have j: "j < length pages" using i by simp
  show ?thesis using engine_order [OF E O I0 h0 j] Suc by simp
qed

subsection \<open>The three runs as engine loops\<close>

lemma pagesInFrames_replicate_None: "pagesInFrames (replicate n None) = []"
  by (induction n) (simp_all add: pagesInFrames_def)

lemma start_vars_simps:
  "framesV (start_vars n) = replicate (nat n) None" "orderV (start_vars n) = []"
  "historyV (start_vars n) = []" "statsV (start_vars n) = \<lparr>hits = 0, faults = 0, total = 0\<rparr>"
  by (simp_all add: start_vars_def init_vars_def)

lemma start_order_ok: "order_ok (nat n) (start_vars n)"
  by (simp add: order_ok_def frames_ok_def start_vars_simps pagesInFrames_replicate_None)

lemma start_frames_ok: "frames_ok (nat n) (start_vars n)"
  by (simp add: frames_ok_def start_vars_simps pagesInFrames_replicate_None)

lemma runFIFO_loop:
  assumes "0 \<le> n" "n \<le> 2 ^ 32 - 1"
  shows "runFIFO pages n = Inr (historyV (forEach fifo_body pages 0 (start_vars n)))"
  using assms by (simp add: runFIFO_def new_Array_fill_null_def start_vars_def)

lemma runLRU_loop:
  assumes "0 \<le> n" "n \<le> 2 ^ 32 - 1"
  shows "runLRU pages n = Inr (historyV (forEach lru_body pages 0 (start_vars n)))"
  using assms by (simp add: runLRU_def new_Array_fill_null_def start_vars_def)

lemma runOptimal_loop:
  assumes "1 \<le> n" "n \<le> 2 ^ 32 - 1"
  shows "runOptimal pages n = Inr (historyV (forEach (opt_step pages) pages 0 (start_vars n)))"
proof -
  let ?I = "\<lambda>s. 0 < nat n \<and> frames_ok (nat n) s"
  have step: "\<And>x i s. ?I s
      \<Longrightarrow> opt_body pages x i s = Inr (opt_step pages x i s) \<and> ?I (opt_step pages x i s)"
  proof -
    fix x i s
    assume I: "?I s"
    then have "framesV s \<noteq> []" by (auto simp: frames_ok_def)
    then have "opt_body pages x i s = Inr (opt_step pages x i s)" by (rule opt_step_cases)
    moreover have "?I (opt_step pages x i s)"
      using opt_engine_step [of "nat n" pages] I unfolding engine_step_def by blast
    ultimately show "opt_body pages x i s = Inr (opt_step pages x i s) \<and> ?I (opt_step pages x i s)"
      by simp
  qed
  have I0: "?I (start_vars n)" using assms(1) start_frames_ok by simp
  have "forEach_throw (opt_body pages) pages 0 (start_vars n)
          = Inr (forEach (opt_step pages) pages 0 (start_vars n))"
    using forEach_throw_total [of ?I "opt_body pages" "opt_step pages", OF step I0] .
  then show ?thesis
    using assms by (simp add: runOptimal_def new_Array_fill_null_def start_vars_def)
qed

lemma valid_input_range:
  assumes "valid_input pages n"
  shows "0 \<le> n" "1 \<le> n" "n \<le> 2 ^ 32 - 1" "0 < nat n" "pages \<noteq> []"
  using assms by (simp_all add: valid_input_def)

text \<open>Under a valid input, every recognised policy runs as an engine loop.\<close>

lemma run_engine:
  assumes v: "valid_input pages n" and a: "recognised algorithm"
  shows "\<exists>I b. engine_step I b \<and> I (start_vars n)
           \<and> (\<forall>s. I s \<longrightarrow> frames_ok (nat n) s)
           \<and> run pages n algorithm = Inr (historyV (forEach b pages 0 (start_vars n)))"
proof -
  note r = valid_input_range [OF v]
  from a consider (fifo) "algorithm = ''FIFO''" | (lru) "algorithm = ''LRU''"
    | (opt) "algorithm = ''OPTIMAL''" unfolding recognised_def by blast
  then show ?thesis
  proof cases
    case fifo
    have "run pages n algorithm = Inr (historyV (forEach fifo_body pages 0 (start_vars n)))"
      using fifo runFIFO_loop [OF r(1,3)] by (simp add: run_def)
    moreover have "0 < nat n \<and> order_ok (nat n) (start_vars n)"
      using r(4) start_order_ok by simp
    moreover have "\<forall>s. 0 < nat n \<and> order_ok (nat n) s \<longrightarrow> frames_ok (nat n) s"
      by (simp add: order_ok_def)
    ultimately show ?thesis using fifo_engine_step [of "nat n"] by blast
  next
    case lru
    have "run pages n algorithm = Inr (historyV (forEach lru_body pages 0 (start_vars n)))"
      using lru runLRU_loop [OF r(1,3)] by (simp add: run_def)
    moreover have "0 < nat n \<and> order_ok (nat n) (start_vars n)"
      using r(4) start_order_ok by simp
    moreover have "\<forall>s. 0 < nat n \<and> order_ok (nat n) s \<longrightarrow> frames_ok (nat n) s"
      by (simp add: order_ok_def)
    ultimately show ?thesis using lru_engine_step [of "nat n"] by blast
  next
    case opt
    have "run pages n algorithm
            = Inr (historyV (forEach (opt_step pages) pages 0 (start_vars n)))"
      using opt runOptimal_loop [OF r(2,3)] by (simp add: run_def)
    moreover have "0 < nat n \<and> frames_ok (nat n) (start_vars n)"
      using r(4) start_frames_ok by simp
    ultimately show ?thesis using opt_engine_step [of "nat n" pages] by blast
  qed
qed

text \<open>What holds of every snapshot of a run, whatever the policy.\<close>

lemma run_steps:
  assumes v: "valid_input pages n" and a: "recognised algorithm"
  shows "\<exists>h. run pages n algorithm = Inr h \<and> length h = length pages \<and>
           (\<forall>i<length pages.
              step (h ! i) = i \<and> page (h ! i) = pages ! i
              \<and> (isHit (h ! i) \<longleftrightarrow> Some (pages ! i) \<in> set (frames_before n h i))
              \<and> length (frames_before n h i) = nat n
              \<and> distinct (pagesInFrames (frames_before n h i))
              \<and> length (frames (h ! i)) = nat n
              \<and> distinct (pagesInFrames (frames (h ! i)))
              \<and> total (stats (h ! i)) = i + 1
              \<and> hits (stats (h ! i)) + faults (stats (h ! i)) = i + 1
              \<and> hits (stats (h ! i)) = length (filter isHit (take (Suc i) h)))"
proof -
  from run_engine [OF v a] obtain I b
    where E: "engine_step I b" and I0: "I (start_vars n)"
      and F: "\<And>s. I s \<Longrightarrow> frames_ok (nat n) s"
      and R: "run pages n algorithm = Inr (historyV (forEach b pages 0 (start_vars n)))"
    by blast
  let ?h = "historyV (forEach b pages 0 (start_vars n))"
  have h0: "historyV (start_vars n) = []" by (simp add: start_vars_simps)
  have len: "length ?h = length pages" using engine_length [OF E I0 h0] .
  have "step (?h ! i) = i \<and> page (?h ! i) = pages ! i
      \<and> (isHit (?h ! i) \<longleftrightarrow> Some (pages ! i) \<in> set (frames_before n ?h i))
      \<and> length (frames_before n ?h i) = nat n
      \<and> distinct (pagesInFrames (frames_before n ?h i))
      \<and> length (frames (?h ! i)) = nat n
      \<and> distinct (pagesInFrames (frames (?h ! i)))
      \<and> total (stats (?h ! i)) = i + 1
      \<and> hits (stats (?h ! i)) + faults (stats (?h ! i)) = i + 1
      \<and> hits (stats (?h ! i)) = length (filter isHit (take (Suc i) ?h))"
    if i: "i < length pages" for i
  proof -
    have il: "i \<le> length pages" and sl: "Suc i \<le> length pages" using i by simp_all
    note S = engine_snapshot [OF E I0 h0 i]
    have fb: "framesV (vars_at b pages (start_vars n) i) = frames_before n ?h i"
      using engine_frames_before [OF E I0 h0 il]
      by (simp add: frames_before_def start_vars_simps)
    have pre: "frames_ok (nat n) (vars_at b pages (start_vars n) i)"
      using F [OF engine_inv [OF E I0 il]] .
    have post: "frames_ok (nat n) (vars_at b pages (start_vars n) (Suc i))"
      using F [OF engine_inv [OF E I0 sl]] .
    note T = engine_totals [OF E I0 h0 sl]
    show ?thesis
      using S(1,2) S(5) pre post T unfolding S(3) S(4) fb [symmetric]
      by (simp add: frames_ok_def start_vars_simps)
  qed
  then show ?thesis using R len by blast
qed

lemma step_result_facts:
  assumes "step_result fs pg x"
  shows "isHit x \<longleftrightarrow> Some pg \<in> set fs"
    and "pageToEvict x \<noteq> Null \<longleftrightarrow> Some pg \<notin> set fs \<and> None \<notin> set fs"
    and "Some pg \<in> set (frames x)"
    and "pageToEvict x \<noteq> Null \<Longrightarrow>
           \<exists>v j. pageToEvict x = Page v \<and> j < length fs \<and> fs ! j = Some v
             \<and> frames x = fs[j := Some pg]"
proof -
  show "isHit x \<longleftrightarrow> Some pg \<in> set fs"
    using assms by (auto simp: step_result_def split: if_splits)
  show "pageToEvict x \<noteq> Null \<longleftrightarrow> Some pg \<notin> set fs \<and> None \<notin> set fs"
    using assms by (auto simp: step_result_def split: if_splits)
  show "Some pg \<in> set (frames x)"
  proof (cases "Some pg \<in> set fs")
    case True
    then show ?thesis using assms by (simp add: step_result_def)
  next
    case False
    show ?thesis
    proof (cases "None \<in> set fs")
      case True
      with False assms first_empty_slot(1) [OF True] show ?thesis
        by (simp add: step_result_def set_update_memI)
    next
      case full: False
      with False assms obtain v where "Some v \<in> set fs"
        "frames x = fs[nat (indexOf fs (Some v)) := Some pg]"
        by (auto simp: step_result_def)
      with victim_slot(1) [of v fs] show ?thesis by (simp add: set_update_memI)
    qed
  qed
  show "\<exists>v j. pageToEvict x = Page v \<and> j < length fs \<and> fs ! j = Some v
             \<and> frames x = fs[j := Some pg]" if "pageToEvict x \<noteq> Null"
  proof -
    from that assms obtain v where v: "pageToEvict x = Page v" "Some v \<in> set fs"
        "frames x = fs[nat (indexOf fs (Some v)) := Some pg]"
      by (auto simp: step_result_def split: if_splits)
    with victim_slot [OF v(2)] show ?thesis by blast
  qed
qed

subsection \<open>Runs that keep an order list\<close>

lemma order_run:
  assumes E: "engine_step (\<lambda>s. 0 < nat n \<and> order_ok (nat n) s) b" and O: "order_step b"
    and n: "0 < nat n" and i: "i < length pages"
  shows "order_ok (nat n) (vars_at b pages (start_vars n) i)"
    and "order_ok (nat n) (vars_at b pages (start_vars n) (Suc i))"
    and "framesV (vars_at b pages (start_vars n) i)
           = frames_before n (historyV (forEach b pages 0 (start_vars n))) i"
    and "orderV (vars_at b pages (start_vars n) i)
           = helper_before (historyV (forEach b pages 0 (start_vars n))) i"
    and "framesV (vars_at b pages (start_vars n) (Suc i))
           = frames (historyV (forEach b pages 0 (start_vars n)) ! i)"
    and "orderV (vars_at b pages (start_vars n) (Suc i))
           = helperQueue (historyV (forEach b pages 0 (start_vars n)) ! i)"
    and "historyV (forEach b pages 0 (start_vars n)) ! i
           = last (historyV (b (pages ! i) i (vars_at b pages (start_vars n) i)))"
proof -
  have I0: "0 < nat n \<and> order_ok (nat n) (start_vars n)" using n start_order_ok by simp
  have h0: "historyV (start_vars n) = []" by (simp add: start_vars_simps)
  have il: "i \<le> length pages" and sl: "Suc i \<le> length pages" using i by simp_all
  show "order_ok (nat n) (vars_at b pages (start_vars n) i)"
    using engine_inv [OF E I0 il] by simp
  show "order_ok (nat n) (vars_at b pages (start_vars n) (Suc i))"
    using engine_inv [OF E I0 sl] by simp
  show "framesV (vars_at b pages (start_vars n) i)
           = frames_before n (historyV (forEach b pages 0 (start_vars n))) i"
    using engine_frames_before [OF E I0 h0 il]
    by (simp add: frames_before_def start_vars_simps)
  show "orderV (vars_at b pages (start_vars n) i)
           = helper_before (historyV (forEach b pages 0 (start_vars n))) i"
    using engine_order_before [OF E O I0 h0 il]
    by (simp add: helper_before_def start_vars_simps)
  show "framesV (vars_at b pages (start_vars n) (Suc i))
           = frames (historyV (forEach b pages 0 (start_vars n)) ! i)"
    using engine_snapshot(3) [OF E I0 h0 i] by simp
  show "orderV (vars_at b pages (start_vars n) (Suc i))
           = helperQueue (historyV (forEach b pages 0 (start_vars n)) ! i)"
    using engine_order [OF E O I0 h0 i] by simp
  show "historyV (forEach b pages 0 (start_vars n)) ! i
           = last (historyV (b (pages ! i) i (vars_at b pages (start_vars n) i)))"
    using engine_nth [OF E I0 h0 i] vars_at_Suc [OF i, of b "start_vars n"] by simp
qed

lemma order_run_length:
  assumes E: "engine_step (\<lambda>s. 0 < nat n \<and> order_ok (nat n) s) b" and n: "0 < nat n"
  shows "length (historyV (forEach b pages 0 (start_vars n))) = length pages"
proof -
  have I0: "0 < nat n \<and> order_ok (nat n) (start_vars n)" using n start_order_ok by simp
  show ?thesis using engine_length [OF E I0] by (simp add: start_vars_simps)
qed

lemma order_run_helper:
  assumes E: "engine_step (\<lambda>s. 0 < nat n \<and> order_ok (nat n) s) b" and O: "order_step b"
    and n: "0 < nat n" and i: "i < length pages"
  shows "distinct (helperQueue (historyV (forEach b pages 0 (start_vars n)) ! i))"
    and "set (helperQueue (historyV (forEach b pages 0 (start_vars n)) ! i))
           = set (pagesInFrames (frames (historyV (forEach b pages 0 (start_vars n)) ! i)))"
  using order_run(2) [OF E O n i]
  unfolding order_run(5) [OF E O n i, symmetric] order_run(6) [OF E O n i, symmetric]
  by (simp_all add: order_ok_def)

subsection \<open>The FIFO queue\<close>

lemma fifo_step_order:
  assumes I: "0 < n \<and> order_ok n s"
  shows "Some pg \<in> set (framesV s) \<Longrightarrow>
           isHit (last (historyV (fifo_body pg i s)))
           \<and> pageToEvict (last (historyV (fifo_body pg i s))) = Null
           \<and> orderV (fifo_body pg i s) = orderV s"
    and "Some pg \<notin> set (framesV s) \<Longrightarrow> None \<in> set (framesV s) \<Longrightarrow>
           \<not> isHit (last (historyV (fifo_body pg i s)))
           \<and> pageToEvict (last (historyV (fifo_body pg i s))) = Null
           \<and> orderV (fifo_body pg i s) = orderV s @ [pg]"
    and "Some pg \<notin> set (framesV s) \<Longrightarrow> None \<notin> set (framesV s) \<Longrightarrow>
           \<not> isHit (last (historyV (fifo_body pg i s)))
           \<and> orderV s \<noteq> [] \<and> Some (hd (orderV s)) \<in> set (framesV s)
           \<and> pageToEvict (last (historyV (fifo_body pg i s))) = Page (hd (orderV s))
           \<and> orderV (fifo_body pg i s) = tl (orderV s) @ [pg]"
proof -
  from I have n: "0 < n" and len: "length (framesV s) = n"
    and sq: "set (orderV s) = set (pagesInFrames (framesV s))"
    by (simp_all add: order_ok_def frames_ok_def)
  show "isHit (last (historyV (fifo_body pg i s)))
           \<and> pageToEvict (last (historyV (fifo_body pg i s))) = Null
           \<and> orderV (fifo_body pg i s) = orderV s" if hit: "Some pg \<in> set (framesV s)"
    unfolding fifo_body_hit [OF hit] by (simp add: push_state_def createState_def)
  show "\<not> isHit (last (historyV (fifo_body pg i s)))
           \<and> pageToEvict (last (historyV (fifo_body pg i s))) = Null
           \<and> orderV (fifo_body pg i s) = orderV s @ [pg]"
    if miss: "Some pg \<notin> set (framesV s)" and e: "None \<in> set (framesV s)"
    unfolding fifo_body_load [OF miss e] by (simp add: push_state_def createState_def)
  show "\<not> isHit (last (historyV (fifo_body pg i s)))
           \<and> orderV s \<noteq> [] \<and> Some (hd (orderV s)) \<in> set (framesV s)
           \<and> pageToEvict (last (historyV (fifo_body pg i s))) = Page (hd (orderV s))
           \<and> orderV (fifo_body pg i s) = tl (orderV s) @ [pg]"
    if miss: "Some pg \<notin> set (framesV s)" and full: "None \<notin> set (framesV s)"
  proof -
    have "framesV s \<noteq> []" using n len by auto
    from full_frames_nonempty [OF full this] sq obtain v q where q: "orderV s = v # q"
      by (cases "orderV s") auto
    have v: "Some v \<in> set (framesV s)" using q sq by (auto simp: set_pagesInFrames)
    show ?thesis
      unfolding fifo_body_evict [OF miss full q v] using q v
      by (simp add: push_state_def createState_def)
  qed
qed

lemma loaded_pages_snoc:
  "loaded_pages (xs @ [x]) = loaded_pages xs @ (if isHit x then [] else [page x])"
  by (simp add: loaded_pages_def)

lemma evicted_pages_snoc:
  "evicted_pages (xs @ [x])
     = evicted_pages xs @ (case pageToEvict x of Page v \<Rightarrow> [v] | _ \<Rightarrow> [])"
  by (simp add: evicted_pages_def)

lemma fifo_run_step:
  assumes n: "0 < nat n" and i: "i < length pages"
  shows "page (historyV (forEach fifo_body pages 0 (start_vars n)) ! i) = pages ! i"
    and "isHit (historyV (forEach fifo_body pages 0 (start_vars n)) ! i) \<Longrightarrow>
           pageToEvict (historyV (forEach fifo_body pages 0 (start_vars n)) ! i) = Null
           \<and> helperQueue (historyV (forEach fifo_body pages 0 (start_vars n)) ! i)
               = helper_before (historyV (forEach fifo_body pages 0 (start_vars n))) i"
    and "\<not> isHit (historyV (forEach fifo_body pages 0 (start_vars n)) ! i) \<Longrightarrow>
         None \<in> set (frames_before n (historyV (forEach fifo_body pages 0 (start_vars n))) i) \<Longrightarrow>
           pageToEvict (historyV (forEach fifo_body pages 0 (start_vars n)) ! i) = Null
           \<and> helperQueue (historyV (forEach fifo_body pages 0 (start_vars n)) ! i)
               = helper_before (historyV (forEach fifo_body pages 0 (start_vars n))) i
                   @ [pages ! i]"
    and "\<not> isHit (historyV (forEach fifo_body pages 0 (start_vars n)) ! i) \<Longrightarrow>
         None \<notin> set (frames_before n (historyV (forEach fifo_body pages 0 (start_vars n))) i) \<Longrightarrow>
           helper_before (historyV (forEach fifo_body pages 0 (start_vars n))) i \<noteq> []
           \<and> Some (hd (helper_before (historyV (forEach fifo_body pages 0 (start_vars n))) i))
               \<in> set (frames_before n (historyV (forEach fifo_body pages 0 (start_vars n))) i)
           \<and> pageToEvict (historyV (forEach fifo_body pages 0 (start_vars n)) ! i)
               = Page (hd (helper_before (historyV (forEach fifo_body pages 0 (start_vars n))) i))
           \<and> helperQueue (historyV (forEach fifo_body pages 0 (start_vars n)) ! i)
               = tl (helper_before (historyV (forEach fifo_body pages 0 (start_vars n))) i)
                   @ [pages ! i]"
proof -
  let ?h = "historyV (forEach fifo_body pages 0 (start_vars n))"
  let ?s = "vars_at fifo_body pages (start_vars n) i"
  note R = order_run [OF fifo_engine_step fifo_order_step n i]
  have I: "0 < nat n \<and> order_ok (nat n) ?s" using n R(1) by simp
  have nxt: "vars_at fifo_body pages (start_vars n) (Suc i) = fifo_body (pages ! i) i ?s"
    using vars_at_Suc [OF i] .
  have hq: "helperQueue (?h ! i) = orderV (fifo_body (pages ! i) i ?s)"
    using R(6) nxt by simp
  note S = fifo_step_order [OF I, of "pages ! i" i, folded R(7), unfolded R(3) R(4)]
  have I0: "0 < nat n \<and> order_ok (nat n) (start_vars n)" using n start_order_ok by simp
  show "page (?h ! i) = pages ! i"
    using engine_snapshot(2) [OF fifo_engine_step I0 _ i] by (simp add: start_vars_simps)
  show "pageToEvict (?h ! i) = Null \<and> helperQueue (?h ! i) = helper_before ?h i"
    if "isHit (?h ! i)"
    using that S hq by (cases "Some (pages ! i) \<in> set (frames_before n ?h i)";
        cases "None \<in> set (frames_before n ?h i)") auto
  show "pageToEvict (?h ! i) = Null
      \<and> helperQueue (?h ! i) = helper_before ?h i @ [pages ! i]"
    if "\<not> isHit (?h ! i)" "None \<in> set (frames_before n ?h i)"
    using that S hq by (cases "Some (pages ! i) \<in> set (frames_before n ?h i)") auto
  show "helper_before ?h i \<noteq> []
      \<and> Some (hd (helper_before ?h i)) \<in> set (frames_before n ?h i)
      \<and> pageToEvict (?h ! i) = Page (hd (helper_before ?h i))
      \<and> helperQueue (?h ! i) = tl (helper_before ?h i) @ [pages ! i]"
    if "\<not> isHit (?h ! i)" "None \<notin> set (frames_before n ?h i)"
    using that S hq by (cases "Some (pages ! i) \<in> set (frames_before n ?h i)") auto
qed

lemma fifo_run_prefix:
  assumes n: "0 < nat n" and k: "k \<le> length pages"
  shows "loaded_pages (take k (historyV (forEach fifo_body pages 0 (start_vars n))))
           = evicted_pages (take k (historyV (forEach fifo_body pages 0 (start_vars n))))
               @ helper_before (historyV (forEach fifo_body pages 0 (start_vars n))) k"
  using k
proof (induction k)
  case 0
  then show ?case by (simp add: loaded_pages_def evicted_pages_def helper_before_def)
next
  case (Suc k)
  let ?h = "historyV (forEach fifo_body pages 0 (start_vars n))"
  from Suc.prems have kl: "k < length pages" by simp
  have len: "length ?h = length pages" using order_run_length [OF fifo_engine_step n] .
  have tk: "take (Suc k) ?h = take k ?h @ [?h ! k]"
    using kl len by (simp add: take_Suc_conv_app_nth)
  have ih: "loaded_pages (take k ?h) = evicted_pages (take k ?h) @ helper_before ?h k"
    using Suc.IH kl by simp
  have nb: "helper_before ?h (Suc k) = helperQueue (?h ! k)" by (simp add: helper_before_def)
  note F = fifo_run_step [OF n kl]
  consider (hit) "isHit (?h ! k)"
    | (load) "\<not> isHit (?h ! k)" "None \<in> set (frames_before n ?h k)"
    | (evict) "\<not> isHit (?h ! k)" "None \<notin> set (frames_before n ?h k)" by blast
  then show ?case
  proof cases
    case hit
    with F(2) ih show ?thesis
      unfolding tk loaded_pages_snoc evicted_pages_snoc nb by simp
  next
    case load
    with F(1) F(3) ih show ?thesis
      unfolding tk loaded_pages_snoc evicted_pages_snoc nb by simp
  next
    case evict
    from F(4) [OF evict] have ne: "helper_before ?h k \<noteq> []"
      and ev: "pageToEvict (?h ! k) = Page (hd (helper_before ?h k))"
      and q: "helperQueue (?h ! k) = tl (helper_before ?h k) @ [pages ! k]" by simp_all
    have "helper_before ?h k = hd (helper_before ?h k) # tl (helper_before ?h k)"
      using ne by simp
    then have "evicted_pages (take k ?h) @ helper_before ?h k @ [pages ! k]
        = (evicted_pages (take k ?h) @ [hd (helper_before ?h k)])
            @ tl (helper_before ?h k) @ [pages ! k]"
      by (metis append.assoc append_Cons append_Nil)
    then show ?thesis
      unfolding tk loaded_pages_snoc evicted_pages_snoc nb using evict(1) F(1) ih ev q
      by simp
  qed
qed

subsection \<open>The LRU stack\<close>

lemma lru_step_order:
  assumes I: "0 < n \<and> order_ok n s"
  shows "Some pg \<in> set (framesV s) \<Longrightarrow>
           isHit (last (historyV (lru_body pg i s)))
           \<and> pageToEvict (last (historyV (lru_body pg i s))) = Null
           \<and> pg \<in> set (orderV s)
           \<and> orderV (lru_body pg i s) = pg # remove1 pg (orderV s)"
    and "Some pg \<notin> set (framesV s) \<Longrightarrow> None \<in> set (framesV s) \<Longrightarrow>
           \<not> isHit (last (historyV (lru_body pg i s)))
           \<and> pageToEvict (last (historyV (lru_body pg i s))) = Null
           \<and> orderV (lru_body pg i s) = pg # orderV s"
    and "Some pg \<notin> set (framesV s) \<Longrightarrow> None \<notin> set (framesV s) \<Longrightarrow>
           \<not> isHit (last (historyV (lru_body pg i s)))
           \<and> orderV s \<noteq> [] \<and> Some (last (orderV s)) \<in> set (framesV s)
           \<and> pageToEvict (last (historyV (lru_body pg i s))) = Page (last (orderV s))
           \<and> orderV (lru_body pg i s) = pg # butlast (orderV s)"
proof -
  from I have n: "0 < n" and len: "length (framesV s) = n"
    and sq: "set (orderV s) = set (pagesInFrames (framesV s))"
    by (simp_all add: order_ok_def frames_ok_def)
  show "isHit (last (historyV (lru_body pg i s)))
           \<and> pageToEvict (last (historyV (lru_body pg i s))) = Null
           \<and> pg \<in> set (orderV s)
           \<and> orderV (lru_body pg i s) = pg # remove1 pg (orderV s)"
    if hit: "Some pg \<in> set (framesV s)"
  proof -
    have mem: "pg \<in> set (orderV s)" using hit sq by (simp add: set_pagesInFrames)
    show ?thesis
      unfolding lru_body_hit [OF hit mem] using mem
      by (simp add: push_state_def createState_def)
  qed
  show "\<not> isHit (last (historyV (lru_body pg i s)))
           \<and> pageToEvict (last (historyV (lru_body pg i s))) = Null
           \<and> orderV (lru_body pg i s) = pg # orderV s"
    if miss: "Some pg \<notin> set (framesV s)" and e: "None \<in> set (framesV s)"
    unfolding lru_body_load [OF miss e] by (simp add: push_state_def createState_def)
  show "\<not> isHit (last (historyV (lru_body pg i s)))
           \<and> orderV s \<noteq> [] \<and> Some (last (orderV s)) \<in> set (framesV s)
           \<and> pageToEvict (last (historyV (lru_body pg i s))) = Page (last (orderV s))
           \<and> orderV (lru_body pg i s) = pg # butlast (orderV s)"
    if miss: "Some pg \<notin> set (framesV s)" and full: "None \<notin> set (framesV s)"
  proof -
    have "framesV s \<noteq> []" using n len by auto
    from full_frames_nonempty [OF full this] sq have q: "orderV s \<noteq> []" by auto
    have v: "Some (last (orderV s)) \<in> set (framesV s)"
      using q sq last_in_set [OF q] by (auto simp: set_pagesInFrames)
    show ?thesis
      unfolding lru_body_evict [OF miss full q v] using q v
      by (simp add: push_state_def createState_def)
  qed
qed

lemma lru_run_step:
  assumes n: "0 < nat n" and i: "i < length pages"
  shows "page (historyV (forEach lru_body pages 0 (start_vars n)) ! i) = pages ! i"
    and "isHit (historyV (forEach lru_body pages 0 (start_vars n)) ! i) \<longleftrightarrow> Some (pages ! i) \<in> set (frames_before n (historyV (forEach lru_body pages 0 (start_vars n))) i)"
    and "isHit (historyV (forEach lru_body pages 0 (start_vars n)) ! i) \<Longrightarrow>
           pageToEvict (historyV (forEach lru_body pages 0 (start_vars n)) ! i) = Null
           \<and> pages ! i \<in> set (helper_before (historyV (forEach lru_body pages 0 (start_vars n))) i)
           \<and> helperQueue (historyV (forEach lru_body pages 0 (start_vars n)) ! i) = pages ! i # remove1 (pages ! i) (helper_before (historyV (forEach lru_body pages 0 (start_vars n))) i)"
    and "\<not> isHit (historyV (forEach lru_body pages 0 (start_vars n)) ! i) \<Longrightarrow> None \<in> set (frames_before n (historyV (forEach lru_body pages 0 (start_vars n))) i) \<Longrightarrow>
           pageToEvict (historyV (forEach lru_body pages 0 (start_vars n)) ! i) = Null
           \<and> helperQueue (historyV (forEach lru_body pages 0 (start_vars n)) ! i) = pages ! i # helper_before (historyV (forEach lru_body pages 0 (start_vars n))) i"
    and "\<not> isHit (historyV (forEach lru_body pages 0 (start_vars n)) ! i) \<Longrightarrow> None \<notin> set (frames_before n (historyV (forEach lru_body pages 0 (start_vars n))) i) \<Longrightarrow>
           helper_before (historyV (forEach lru_body pages 0 (start_vars n))) i \<noteq> []
           \<and> Some (last (helper_before (historyV (forEach lru_body pages 0 (start_vars n))) i)) \<in> set (frames_before n (historyV (forEach lru_body pages 0 (start_vars n))) i)
           \<and> pageToEvict (historyV (forEach lru_body pages 0 (start_vars n)) ! i) = Page (last (helper_before (historyV (forEach lru_body pages 0 (start_vars n))) i))
           \<and> helperQueue (historyV (forEach lru_body pages 0 (start_vars n)) ! i) = pages ! i # butlast (helper_before (historyV (forEach lru_body pages 0 (start_vars n))) i)"
proof -
  let ?h = "historyV (forEach lru_body pages 0 (start_vars n))"
  let ?s = "vars_at lru_body pages (start_vars n) i"
  note R = order_run [OF lru_engine_step lru_order_step n i]
  have I: "0 < nat n \<and> order_ok (nat n) ?s" using n R(1) by simp
  have nxt: "vars_at lru_body pages (start_vars n) (Suc i) = lru_body (pages ! i) i ?s"
    using vars_at_Suc [OF i] .
  have hq: "helperQueue (?h ! i) = orderV (lru_body (pages ! i) i ?s)"
    using R(6) nxt by simp
  note S = lru_step_order [OF I, of "pages ! i" i, folded R(7), unfolded R(3) R(4)]
  have I0: "0 < nat n \<and> order_ok (nat n) (start_vars n)" using n start_order_ok by simp
  show "page (?h ! i) = pages ! i"
    using engine_snapshot(2) [OF lru_engine_step I0 _ i] by (simp add: start_vars_simps)
  show "isHit (?h ! i) \<longleftrightarrow> Some (pages ! i) \<in> set (frames_before n ?h i)"
    using S by (cases "Some (pages ! i) \<in> set (frames_before n ?h i)";
        cases "None \<in> set (frames_before n ?h i)") auto
  show "pageToEvict (?h ! i) = Null
      \<and> pages ! i \<in> set (helper_before ?h i)
      \<and> helperQueue (?h ! i) = pages ! i # remove1 (pages ! i) (helper_before ?h i)"
    if "isHit (?h ! i)"
    using that S hq by (cases "Some (pages ! i) \<in> set (frames_before n ?h i)";
        cases "None \<in> set (frames_before n ?h i)") auto
  show "pageToEvict (?h ! i) = Null
      \<and> helperQueue (?h ! i) = pages ! i # helper_before ?h i"
    if "\<not> isHit (?h ! i)" "None \<in> set (frames_before n ?h i)"
    using that S hq by (cases "Some (pages ! i) \<in> set (frames_before n ?h i)") auto
  show "helper_before ?h i \<noteq> []
      \<and> Some (last (helper_before ?h i)) \<in> set (frames_before n ?h i)
      \<and> pageToEvict (?h ! i) = Page (last (helper_before ?h i))
      \<and> helperQueue (?h ! i) = pages ! i # butlast (helper_before ?h i)"
    if "\<not> isHit (?h ! i)" "None \<notin> set (frames_before n ?h i)"
    using that S hq by (cases "Some (pages ! i) \<in> set (frames_before n ?h i)") auto
qed

lemma recency_order_snoc:
  "recency_order (xs @ [p]) = p # remove1 p (recency_order xs)"
proof -
  have "remdups (xs @ [p]) = filter (\<lambda>x. x \<noteq> p) (remdups xs) @ [p]"
    by (induction xs) auto
  then have "recency_order (xs @ [p]) = p # filter (\<lambda>x. x \<noteq> p) (recency_order xs)"
    by (simp add: recency_order_def rev_filter)
  moreover have "filter (\<lambda>x. x \<noteq> p) (recency_order xs) = removeAll p (recency_order xs)"
    by (induction "recency_order xs") (auto simp: removeAll_filter_not_eq intro: filter_cong)
  moreover have "distinct (recency_order xs)" by (simp add: recency_order_def)
  ultimately show ?thesis by (simp add: distinct_remove1_removeAll)
qed

lemma take_remove1_absent:
  "p \<notin> set (take m L) \<Longrightarrow> take m (remove1 p L) = take m L"
proof (induction L arbitrary: m)
  case Nil
  then show ?case by simp
next
  case (Cons y ys)
  then show ?case by (cases m) auto
qed

lemma take_remove1_present:
  "p \<in> set (take (Suc m) L) \<Longrightarrow> take m (remove1 p L) = remove1 p (take (Suc m) L)"
proof (induction L arbitrary: m)
  case Nil
  then show ?case by simp
next
  case (Cons y ys)
  show ?case
  proof (cases "y = p")
    case True
    then show ?thesis by simp
  next
    case False
    with Cons.prems have mem: "p \<in> set (take m ys)" by simp
    then obtain m' where m: "m = Suc m'" by (cases m) auto
    with mem Cons.IH [of m'] False show ?thesis by simp
  qed
qed

lemma length_pagesInFrames:
  "length (pagesInFrames fs) = length (filter (\<lambda>x. x \<noteq> None) fs)"
  by (induction fs) (auto simp: pagesInFrames_def split: option.splits)

lemma order_length_full:
  assumes "order_ok n s"
  shows "None \<in> set (framesV s) \<longleftrightarrow> length (orderV s) < n"
proof -
  from assms have len: "length (framesV s) = n"
    and d: "distinct (pagesInFrames (framesV s))" and dq: "distinct (orderV s)"
    and sq: "set (orderV s) = set (pagesInFrames (framesV s))"
    by (simp_all add: order_ok_def frames_ok_def)
  have "length (orderV s) = length (pagesInFrames (framesV s))"
    using distinct_card [OF d] distinct_card [OF dq] sq by simp
  then have eq: "length (orderV s) = length (filter (\<lambda>x. x \<noteq> None) (framesV s))"
    by (simp add: length_pagesInFrames)
  show ?thesis
  proof
    assume "None \<in> set (framesV s)"
    then have "length (filter (\<lambda>x. x \<noteq> None) (framesV s)) < length (framesV s)"
      by (intro length_filter_less [of None]) simp_all
    then show "length (orderV s) < n" using eq len by simp
  next
    assume "length (orderV s) < n"
    then have "length (filter (\<lambda>x. x \<noteq> None) (framesV s)) \<noteq> length (framesV s)"
      using eq len by simp
    then have "filter (\<lambda>x. x \<noteq> None) (framesV s) \<noteq> framesV s" by auto
    then show "None \<in> set (framesV s)" by (auto simp: filter_id_conv)
  qed
qed

lemma lru_vars_recency:
  assumes n: "0 < nat n" and k: "k \<le> length pages"
  shows "orderV (vars_at lru_body pages (start_vars n) k)
           = take (nat n) (recency_order (take k pages))"
  using k
proof (induction k)
  case 0
  then show ?case by (simp add: vars_at_0 start_vars_simps recency_order_def)
next
  case (Suc k)
  then have kl: "k < length pages" by simp
  let ?s = "vars_at lru_body pages (start_vars n) k"
  let ?p = "pages ! k"
  let ?L = "recency_order (take k pages)"
  have ih: "orderV ?s = take (nat n) ?L" using Suc.IH kl by simp
  note R = order_run [OF lru_engine_step lru_order_step n kl]
  have I: "0 < nat n \<and> order_ok (nat n) ?s" using n R(1) by simp
  have nxt: "vars_at lru_body pages (start_vars n) (Suc k) = lru_body ?p k ?s"
    using vars_at_Suc [OF kl] .
  have L': "recency_order (take (Suc k) pages) = ?p # remove1 ?p ?L"
    using kl by (simp add: take_Suc_conv_app_nth recency_order_snoc)
  obtain m where m: "nat n = Suc m" using n by (cases "nat n") auto
  have sq: "set (orderV ?s) = {p. Some p \<in> set (framesV ?s)}"
    using R(1) by (simp add: order_ok_def set_pagesInFrames)
  note S = lru_step_order [OF I, of ?p k]
  consider (hit) "Some ?p \<in> set (framesV ?s)"
    | (load) "Some ?p \<notin> set (framesV ?s)" "None \<in> set (framesV ?s)"
    | (evict) "Some ?p \<notin> set (framesV ?s)" "None \<notin> set (framesV ?s)" by blast
  then show ?case
  proof cases
    case hit
    then have mem: "?p \<in> set (take (Suc m) ?L)" using sq ih m by simp
    have "orderV (lru_body ?p k ?s) = ?p # remove1 ?p (take (Suc m) ?L)"
      using S(1) [OF hit] ih m by simp
    also have "\<dots> = take (nat n) (?p # remove1 ?p ?L)"
      using take_remove1_present [OF mem] m by simp
    finally show ?thesis using nxt L' by simp
  next
    case load
    then have short: "length (take (Suc m) ?L) < Suc m"
      using order_length_full [OF R(1)] ih m by simp
    then have whole: "take (Suc m) ?L = ?L" and lenL: "length ?L \<le> m" by auto
    have absent: "?p \<notin> set ?L" using load(1) sq ih m whole by simp
    have "orderV (lru_body ?p k ?s) = ?p # ?L"
      using S(2) [OF load] ih m whole by simp
    also have "\<dots> = take (nat n) (?p # remove1 ?p ?L)"
      using absent lenL m by (simp add: remove1_idem)
    finally show ?thesis using nxt L' by simp
  next
    case evict
    then have "\<not> length (take (Suc m) ?L) < Suc m"
      using order_length_full [OF R(1)] ih m by simp
    then have long: "Suc m \<le> length ?L" by simp
    have absent: "?p \<notin> set (take (Suc m) ?L)" using evict(1) sq ih m by simp
    then have absent': "?p \<notin> set (take m ?L)"
      using set_take_subset_set_take [of m "Suc m" ?L] by auto
    have "orderV (lru_body ?p k ?s) = ?p # butlast (take (Suc m) ?L)"
      using S(3) [OF evict] ih m by simp
    also have "\<dots> = ?p # take m ?L" using long by (simp add: butlast_take)
    also have "\<dots> = take (nat n) (?p # remove1 ?p ?L)"
      using take_remove1_absent [OF absent'] m by simp
    finally show ?thesis using nxt L' by simp
  qed
qed

subsection \<open>The victim of a replacement fault in \<open>runOptimal\<close>\<close>

lemma indexOf_takeWhile:
  "indexOf xs x
     = (if x \<in> set xs then int (length (takeWhile (\<lambda>q. q \<noteq> x) xs)) else - 1)"
proof (induction xs)
  case Nil
  then show ?case by simp
next
  case (Cons y ys)
  then show ?case by (auto simp: Let_def)
qed

lemma futureUse_distance:
  "futureUse pages i p = next_use_distance (drop (Suc i) pages) p"
  by (simp add: futureUse_def next_use_distance_def slice_def Let_def indexOf_takeWhile)

lemma opt_step_victim:
  assumes ne: "framesV s \<noteq> []" and miss: "Some pg \<notin> set (framesV s)"
    and full: "None \<notin> set (framesV s)"
    and plain: "\<forall>p. Some p \<in> set (framesV s) \<longrightarrow> plain_decimal p"
  shows "\<exists>v. pageToEvict (last (historyV (opt_step pages pg i s))) = Page v
           \<and> Some v \<in> set (framesV s)
           \<and> (\<forall>p. Some p \<in> set (framesV s)
                  \<longrightarrow> futureUse pages i p \<le> futureUse pages i v)"
proof -
  from optimal_victim_ok [OF full ne plain, of pages i] obtain v
    where v: "optimal_victim pages i (framesV s) = Inr (Page v)" "Some v \<in> set (framesV s)"
      and far: "\<forall>p. Some p \<in> set (framesV s) \<longrightarrow> futureUse pages i p \<le> futureUse pages i v"
    by blast
  have "pageToEvict (last (historyV (opt_step pages pg i s))) = Page v"
    by (simp add: opt_step_def opt_body_evict [OF miss full v] push_state_def createState_def)
  then show ?thesis using v(2) far by blast
qed

lemma opt_vars_plain:
  assumes plain: "\<forall>p \<in> set pages. plain_decimal p" and k: "k \<le> length pages"
  shows "\<forall>p. Some p \<in> set (framesV (vars_at (opt_step pages) pages (start_vars n) k))
           \<longrightarrow> plain_decimal p"
  using k
proof (induction k)
  case 0
  then show ?case by (simp add: vars_at_0 start_vars_simps)
next
  case (Suc k)
  then have kl: "k < length pages" by simp
  let ?s = "vars_at (opt_step pages) pages (start_vars n) k"
  have ih: "\<forall>p. Some p \<in> set (framesV ?s) \<longrightarrow> plain_decimal p" using Suc.IH kl by simp
  have new: "plain_decimal (pages ! k)" using plain kl by simp
  have "set (framesV (vars_at (opt_step pages) pages (start_vars n) (Suc k)))
          \<subseteq> insert (Some (pages ! k)) (set (framesV ?s))"
    using opt_step_frames [of pages "pages ! k" k ?s] by (simp add: vars_at_Suc [OF kl])
  then show ?case using ih new by auto
qed

lemma opt_run_at:
  assumes n: "0 < nat n" and i: "i < length pages"
  shows "0 < nat n \<and> frames_ok (nat n) (vars_at (opt_step pages) pages (start_vars n) i)"
    and "framesV (vars_at (opt_step pages) pages (start_vars n) i)
           = frames_before n (historyV (forEach (opt_step pages) pages 0 (start_vars n))) i"
    and "historyV (forEach (opt_step pages) pages 0 (start_vars n)) ! i
           = last (historyV (opt_step pages (pages ! i) i
                     (vars_at (opt_step pages) pages (start_vars n) i)))"
    and "isHit (historyV (forEach (opt_step pages) pages 0 (start_vars n)) ! i)
           \<longleftrightarrow> Some (pages ! i)
                 \<in> set (framesV (vars_at (opt_step pages) pages (start_vars n) i))"
proof -
  note E = opt_engine_step [of "nat n" pages]
  have I0: "0 < nat n \<and> frames_ok (nat n) (start_vars n)" using n start_frames_ok by simp
  have h0: "historyV (start_vars n) = []" by (simp add: start_vars_simps)
  have il: "i \<le> length pages" using i by simp
  show "framesV (vars_at (opt_step pages) pages (start_vars n) i)
           = frames_before n (historyV (forEach (opt_step pages) pages 0 (start_vars n))) i"
    using engine_frames_before [OF E I0 h0 il]
    by (simp add: frames_before_def start_vars_simps)
  show "0 < nat n \<and> frames_ok (nat n) (vars_at (opt_step pages) pages (start_vars n) i)"
    using engine_inv [OF E I0 il] .
  show "historyV (forEach (opt_step pages) pages 0 (start_vars n)) ! i
           = last (historyV (opt_step pages (pages ! i) i
                     (vars_at (opt_step pages) pages (start_vars n) i)))"
    using engine_nth [OF E I0 h0 i] vars_at_Suc [OF i, of "opt_step pages" "start_vars n"]
    by simp
  show "isHit (historyV (forEach (opt_step pages) pages 0 (start_vars n)) ! i)
           \<longleftrightarrow> Some (pages ! i)
                 \<in> set (framesV (vars_at (opt_step pages) pages (start_vars n) i))"
    using engine_snapshot(5) [OF E I0 h0 i] .
qed

lemma opt_run_step:
  assumes n: "0 < nat n" and i: "i < length pages"
    and plain: "\<forall>p \<in> set pages. plain_decimal p"
    and miss: "\<not> isHit (historyV (forEach (opt_step pages) pages 0 (start_vars n)) ! i)"
    and full: "None \<notin> set (frames_before n
                 (historyV (forEach (opt_step pages) pages 0 (start_vars n))) i)"
  shows "\<exists>v. pageToEvict (historyV (forEach (opt_step pages) pages 0 (start_vars n)) ! i)
                = Page v
           \<and> Some v \<in> set (frames_before n
                 (historyV (forEach (opt_step pages) pages 0 (start_vars n))) i)
           \<and> (\<forall>p. Some p \<in> set (frames_before n
                       (historyV (forEach (opt_step pages) pages 0 (start_vars n))) i)
                  \<longrightarrow> futureUse pages i p \<le> futureUse pages i v)"
proof -
  let ?h = "historyV (forEach (opt_step pages) pages 0 (start_vars n))"
  let ?s = "vars_at (opt_step pages) pages (start_vars n) i"
  note A = opt_run_at [OF n i]
  have il: "i \<le> length pages" using i by simp
  have ne: "framesV ?s \<noteq> []" using A(1) by (auto simp: frames_ok_def)
  have m: "Some (pages ! i) \<notin> set (framesV ?s)" using A(4) miss by simp
  have f: "None \<notin> set (framesV ?s)" using full A(2) by simp
  note P = opt_vars_plain [OF plain il, of n]
  show ?thesis
    using opt_step_victim [OF ne m f P, of pages i] unfolding A(3) [symmetric] A(2) .
qed

subsection \<open>The outcome of every step on the frames\<close>

lemma order_run_result:
  assumes F: "full_step (\<lambda>s. 0 < nat n \<and> order_ok (nat n) s) b" and O: "order_step b"
    and n: "0 < nat n" and i: "i < length pages"
  shows "step_result (frames_before n (historyV (forEach b pages 0 (start_vars n))) i)
           (pages ! i) (historyV (forEach b pages 0 (start_vars n)) ! i)"
proof -
  note R = order_run [OF full_step_engine [OF F] O n i]
  have "0 < nat n \<and> order_ok (nat n) (vars_at b pages (start_vars n) i)"
    using n R(1) by simp
  from full_step_result [OF F this, of "pages ! i" i]
  show ?thesis unfolding R(7) [symmetric] R(3) .
qed

lemma opt_run_result:
  assumes n: "0 < nat n" and i: "i < length pages"
    and plain: "\<forall>p \<in> set pages. plain_decimal p"
  shows "step_result
           (frames_before n (historyV (forEach (opt_step pages) pages 0 (start_vars n))) i)
           (pages ! i) (historyV (forEach (opt_step pages) pages 0 (start_vars n)) ! i)"
proof -
  note A = opt_run_at [OF n i]
  have il: "i \<le> length pages" using i by simp
  note P = opt_vars_plain [OF plain il, of n]
  from opt_step_result [OF A(1) P, of "pages ! i" pages i]
  show ?thesis unfolding A(3) [symmetric] A(2) .
qed

text \<open>
  For FIFO and LRU, and for OPTIMAL on pages that print in plain decimal notation, every
  snapshot has the full outcome on the frames it started from.
\<close>

lemma run_step_results:
  assumes v: "valid_input pages n" and a: "recognised algorithm"
    and plain: "algorithm = ''OPTIMAL'' \<longrightarrow> (\<forall>p \<in> set pages. plain_decimal p)"
  shows "\<exists>h. run pages n algorithm = Inr h \<and> length h = length pages \<and>
           (\<forall>i<length pages. step_result (frames_before n h i) (pages ! i) (h ! i))"
proof -
  note r = valid_input_range [OF v]
  from a consider (fifo) "algorithm = ''FIFO''" | (lru) "algorithm = ''LRU''"
    | (opt) "algorithm = ''OPTIMAL''" unfolding recognised_def by blast
  then show ?thesis
  proof cases
    case fifo
    have "run pages n algorithm = Inr (historyV (forEach fifo_body pages 0 (start_vars n)))"
      using fifo runFIFO_loop [OF r(1,3)] by (simp add: run_def)
    then show ?thesis
      using order_run_length [OF fifo_engine_step r(4), of pages]
        order_run_result [OF fifo_full_step fifo_order_step r(4), of _ pages]
      by auto
  next
    case lru
    have "run pages n algorithm = Inr (historyV (forEach lru_body pages 0 (start_vars n)))"
      using lru runLRU_loop [OF r(1,3)] by (simp add: run_def)
    then show ?thesis
      using order_run_length [OF lru_engine_step r(4), of pages]
        order_run_result [OF lru_full_step lru_order_step r(4), of _ pages]
      by auto
  next
    case opt
    have run: "run pages n algorithm
            = Inr (historyV (forEach (opt_step pages) pages 0 (start_vars n)))"
      using opt runOptimal_loop [OF r(2,3)] by (simp add: run_def)
    have I0: "0 < nat n \<and> frames_ok (nat n) (start_vars n)"
      using r(4) start_frames_ok by simp
    have len: "length (historyV (forEach (opt_step pages) pages 0 (start_vars n)))
                 = length pages"
      using engine_length [OF opt_engine_step I0] by (simp add: start_vars_simps)
    have pl: "\<forall>p \<in> set pages. plain_decimal p" using plain opt by simp
    show ?thesis using run len opt_run_result [OF r(4) _ pl] by auto
  qed
qed

subsection \<open>The exceptions a run can raise\<close>

lemma forEach_throw_error:
  "forEach_throw f xs i s = Inl e \<Longrightarrow> \<exists>x j s'. f x j s' = Inl e"
proof (induction xs arbitrary: i s)
  case Nil
  then show ?case by simp
next
  case (Cons x xs)
  then show ?case by (cases "f x i s") auto
qed

lemma opt_body_error: "opt_body pages pg i s = Inl e \<Longrightarrow> e = TypeError"
  by (auto simp: opt_body_def optimal_victim_def reduce_def Let_def
      split: if_splits sum.splits list.splits)

lemma runFIFO_error: "runFIFO pages n = Inl e \<Longrightarrow> e = RangeError"
  by (auto simp: runFIFO_def new_Array_fill_null_def split: if_splits)

lemma runLRU_error: "runLRU pages n = Inl e \<Longrightarrow> e = RangeError"
  by (auto simp: runLRU_def new_Array_fill_null_def split: if_splits)

lemma runOptimal_error: "runOptimal pages n = Inl e \<Longrightarrow> e = RangeError \<or> e = TypeError"
proof -
  assume a: "runOptimal pages n = Inl e"
  show ?thesis
  proof (cases "new_Array_fill_null n")
    case (Inl e')
    with a show ?thesis
      by (auto simp: runOptimal_def new_Array_fill_null_def split: if_splits)
  next
    case (Inr fs)
    with a have "forEach_throw (opt_body pages) pages 0 (init_vars fs) = Inl e"
      by (auto simp: runOptimal_def split: sum.splits)
    from forEach_throw_error [OF this] opt_body_error show ?thesis by blast
  qed
qed

section \<open>Properties of the engine\<close>

text \<open>
  C5. For a valid input and each of the three policies, the run returns a history with one
  snapshot per reference, and snapshot \<open>i\<close> is flagged as a hit exactly when the referenced
  page \<open>pages ! i\<close> was in the FrameSet the step started from: the frames of snapshot
  \<open>i - 1\<close>, or the all-empty frames at step 0. So the flag agrees with the frame membership
  recorded in consecutive snapshots.
\<close>

theorem hit_iff_resident_before:
  assumes "valid_input pages frameCount" and "recognised algorithm"
  shows "\<exists>h. run pages frameCount algorithm = Inr h \<and> length h = length pages \<and>
           (\<forall>i<length h.
              page (h ! i) = pages ! i
              \<and> (isHit (h ! i) \<longleftrightarrow> Some (pages ! i) \<in> set (frames_before frameCount h i)))"
proof -
  from run_steps [OF assms] obtain h
    where h: "run pages frameCount algorithm = Inr h" "length h = length pages"
      and all: "\<And>i. i < length pages \<Longrightarrow> page (h ! i) = pages ! i
                 \<and> (isHit (h ! i) \<longleftrightarrow> Some (pages ! i) \<in> set (frames_before frameCount h i))"
    by blast
  have "\<forall>i<length h. page (h ! i) = pages ! i
      \<and> (isHit (h ! i) \<longleftrightarrow> Some (pages ! i) \<in> set (frames_before frameCount h i))"
    using all h(2) by simp
  then show ?thesis using h by blast
qed

theorem hit_iff_resident_before_witness:
  "valid_input [1, 2, 1] 2 \<and> recognised ''LRU'' \<and>
   (\<exists>h. run [1, 2, 1] 2 ''LRU'' = Inr h \<and> 2 < length h \<and> page (h ! 2) = 1
      \<and> isHit (h ! 2) = (Some 1 \<in> set (frames_before 2 h 2))
      \<and> isHit (h ! 2))"
proof -
  have v: "valid_input [1, 2, 1] 2" by (simp add: valid_input_def)
  have a: "recognised ''LRU''" by (simp add: recognised_def)
  from hit_iff_resident_before [OF v a] obtain h
    where h: "run [1, 2, 1] 2 ''LRU'' = Inr h" "length h = length [1, 2, 1 :: int]"
      and all: "\<forall>i<length h. page (h ! i) = [1, 2, 1] ! i
            \<and> (isHit (h ! i) \<longleftrightarrow> Some ([1, 2, 1] ! i) \<in> set (frames_before 2 h i))"
    by blast
  have l: "2 < length h" using h(2) by simp
  from all l have two: "page (h ! 2) = [1, 2, 1] ! 2
      \<and> (isHit (h ! 2) \<longleftrightarrow> Some ([1, 2, 1] ! 2) \<in> set (frames_before 2 h 2))" by blast
  have "case run [1, 2, 1] 2 ''LRU'' of Inl e \<Rightarrow> False | Inr g \<Rightarrow> isHit (g ! 2)"
    by code_simp
  then have "isHit (h ! 2)" by (simp add: h(1))
  then show ?thesis using v a h(1) l two by auto
qed

text \<open>
  C6. For a valid input and each of the three policies, the history has exactly one
  snapshot per input page; snapshot \<open>i\<close> carries step index \<open>i\<close>, its cumulative statistics
  satisfy \<open>hits + faults = total = i + 1\<close> (with \<open>hits\<close> the number of hit snapshots up to and
  including \<open>i\<close>), and \<open>total\<close> at the final snapshot is the length of the reference string.
\<close>

theorem statistics_cumulative:
  assumes "valid_input pages frameCount" and "recognised algorithm"
  shows "\<exists>h. run pages frameCount algorithm = Inr h \<and> length h = length pages \<and>
           (\<forall>i<length h.
              step (h ! i) = i
              \<and> hits (stats (h ! i)) + faults (stats (h ! i)) = total (stats (h ! i))
              \<and> total (stats (h ! i)) = i + 1
              \<and> hits (stats (h ! i)) = length (filter isHit (take (Suc i) h)))
           \<and> total (stats (last h)) = length pages"
proof -
  from run_steps [OF assms] obtain h
    where h: "run pages frameCount algorithm = Inr h" "length h = length pages"
      and all: "\<And>i. i < length pages \<Longrightarrow> step (h ! i) = i
                 \<and> total (stats (h ! i)) = i + 1
                 \<and> hits (stats (h ! i)) + faults (stats (h ! i)) = i + 1
                 \<and> hits (stats (h ! i)) = length (filter isHit (take (Suc i) h))"
    by blast
  have ne: "h \<noteq> []" using h(2) valid_input_range(5) [OF assms(1)] by auto
  then have "last h = h ! (length pages - 1)" using h(2) by (simp add: last_conv_nth)
  moreover have "length pages - 1 < length pages" using ne h(2) by (cases pages) auto
  ultimately have "total (stats (last h)) = length pages" using all by auto
  moreover have "step (h ! i) = i
      \<and> hits (stats (h ! i)) + faults (stats (h ! i)) = total (stats (h ! i))
      \<and> total (stats (h ! i)) = i + 1
      \<and> hits (stats (h ! i)) = length (filter isHit (take (Suc i) h))"
    if "i < length h" for i
  proof -
    from that h(2) have "i < length pages" by simp
    from all [OF this] have "step (h ! i) = i" "total (stats (h ! i)) = i + 1"
      "hits (stats (h ! i)) + faults (stats (h ! i)) = i + 1"
      "hits (stats (h ! i)) = length (filter isHit (take (Suc i) h))" by blast+
    then show ?thesis by linarith
  qed
  ultimately show ?thesis using h by blast
qed

theorem statistics_cumulative_witness:
  "valid_input [4, 5, 4] 1 \<and> recognised ''OPTIMAL'' \<and>
   (\<exists>h. run [4, 5, 4] 1 ''OPTIMAL'' = Inr h \<and> length h = 3 \<and> 1 < length h
      \<and> step (h ! 1) = 1
      \<and> hits (stats (h ! 1)) + faults (stats (h ! 1)) = total (stats (h ! 1))
      \<and> total (stats (h ! 1)) = 2 \<and> total (stats (last h)) = 3)"
proof -
  have v: "valid_input [4, 5, 4] 1" by (simp add: valid_input_def)
  have a: "recognised ''OPTIMAL''" by (simp add: recognised_def)
  from statistics_cumulative [OF v a] obtain h
    where h: "run [4, 5, 4] 1 ''OPTIMAL'' = Inr h" "length h = length [4, 5, 4 :: int]"
      and all: "\<forall>i<length h. step (h ! i) = i
            \<and> hits (stats (h ! i)) + faults (stats (h ! i)) = total (stats (h ! i))
            \<and> total (stats (h ! i)) = i + 1
            \<and> hits (stats (h ! i)) = length (filter isHit (take (Suc i) h))"
      and fin: "total (stats (last h)) = length [4, 5, 4 :: int]"
    by blast
  have l: "1 < length h" using h(2) by simp
  from all l have "step (h ! 1) = 1
      \<and> hits (stats (h ! 1)) + faults (stats (h ! 1)) = total (stats (h ! 1))
      \<and> total (stats (h ! 1)) = 1 + 1" by blast
  then show ?thesis using v a h l fin by auto
qed

text \<open>
  The evicted-page field, for FIFO and LRU on every valid input and for OPTIMAL on valid
  inputs whose pages print in plain decimal notation. The field of a snapshot is non-empty
  exactly when the step is a replacement fault: the referenced page was not in the frames
  the step started from and none of those frames was empty. When it is non-empty it names
  a page \<open>v\<close> that was resident at some index \<open>j\<close>, and the snapshot's frames are the
  previous frames with slot \<open>j\<close> overwritten by the referenced page, every other slot
  unchanged.
\<close>

lemma evicted_iff_replacement_plain:
  assumes "valid_input pages frameCount" and "recognised algorithm"
    and "algorithm = ''OPTIMAL'' \<longrightarrow> (\<forall>p \<in> set pages. plain_decimal p)"
  shows "\<exists>h. run pages frameCount algorithm = Inr h \<and> length h = length pages \<and>
           (\<forall>i<length h.
              (pageToEvict (h ! i) \<noteq> Null \<longleftrightarrow>
                 \<not> isHit (h ! i) \<and> None \<notin> set (frames_before frameCount h i))
              \<and> (pageToEvict (h ! i) \<noteq> Null \<longrightarrow>
                   (\<exists>v j. pageToEvict (h ! i) = Page v
                      \<and> j < length (frames_before frameCount h i)
                      \<and> frames_before frameCount h i ! j = Some v
                      \<and> frames (h ! i) = (frames_before frameCount h i)[j := Some (pages ! i)]
                      \<and> frames (h ! i) ! j = Some (pages ! i)
                      \<and> (\<forall>k<length (frames_before frameCount h i).
                            k \<noteq> j \<longrightarrow> frames (h ! i) ! k = frames_before frameCount h i ! k))))"
proof -
  from run_step_results [OF assms] obtain h
    where h: "run pages frameCount algorithm = Inr h" "length h = length pages"
      and all: "\<And>i. i < length pages \<Longrightarrow>
                 step_result (frames_before frameCount h i) (pages ! i) (h ! i)"
    by blast
  have "(pageToEvict (h ! i) \<noteq> Null \<longleftrightarrow>
           \<not> isHit (h ! i) \<and> None \<notin> set (frames_before frameCount h i))
      \<and> (pageToEvict (h ! i) \<noteq> Null \<longrightarrow>
           (\<exists>v j. pageToEvict (h ! i) = Page v
              \<and> j < length (frames_before frameCount h i)
              \<and> frames_before frameCount h i ! j = Some v
              \<and> frames (h ! i) = (frames_before frameCount h i)[j := Some (pages ! i)]
              \<and> frames (h ! i) ! j = Some (pages ! i)
              \<and> (\<forall>k<length (frames_before frameCount h i).
                    k \<noteq> j \<longrightarrow> frames (h ! i) ! k = frames_before frameCount h i ! k)))"
    if "i < length h" for i
  proof -
    from that h(2) all
    have r: "step_result (frames_before frameCount h i) (pages ! i) (h ! i)" by simp
    note F = step_result_facts [OF r]
    have one: "pageToEvict (h ! i) \<noteq> Null \<longleftrightarrow>
        \<not> isHit (h ! i) \<and> None \<notin> set (frames_before frameCount h i)"
      using F(1) F(2) by simp
    have two: "\<exists>v j. pageToEvict (h ! i) = Page v
              \<and> j < length (frames_before frameCount h i)
              \<and> frames_before frameCount h i ! j = Some v
              \<and> frames (h ! i) = (frames_before frameCount h i)[j := Some (pages ! i)]
              \<and> frames (h ! i) ! j = Some (pages ! i)
              \<and> (\<forall>k<length (frames_before frameCount h i).
                    k \<noteq> j \<longrightarrow> frames (h ! i) ! k = frames_before frameCount h i ! k)"
      if ev: "pageToEvict (h ! i) \<noteq> Null"
    proof -
      from F(4) [OF ev] obtain v j where vj: "pageToEvict (h ! i) = Page v"
        "j < length (frames_before frameCount h i)"
        "frames_before frameCount h i ! j = Some v"
        "frames (h ! i) = (frames_before frameCount h i)[j := Some (pages ! i)]" by blast
      have "frames (h ! i) ! j = Some (pages ! i)" using vj(2,4) by simp
      moreover have "\<forall>k<length (frames_before frameCount h i).
          k \<noteq> j \<longrightarrow> frames (h ! i) ! k = frames_before frameCount h i ! k"
        using vj(4) by simp
      ultimately show ?thesis using vj by blast
    qed
    show ?thesis using one two by blast
  qed
  then show ?thesis using h by blast
qed

lemma evicted_iff_replacement_plain_example:
  "valid_input [1, 2, 3] 2 \<and> recognised ''FIFO'' \<and>
   (\<exists>h. run [1, 2, 3] 2 ''FIFO'' = Inr h \<and> 2 < length h
      \<and> (pageToEvict (h ! 2) \<noteq> Null)
           = (\<not> isHit (h ! 2) \<and> None \<notin> set (frames_before 2 h 2))
      \<and> pageToEvict (h ! 2) = Page 1
      \<and> frames (h ! 2) = (frames_before 2 h 2)[0 := Some 3])"
proof -
  have v: "valid_input [1, 2, 3] 2" by (simp add: valid_input_def)
  have a: "recognised ''FIFO''" by (simp add: recognised_def)
  have p: "''FIFO'' = ''OPTIMAL'' \<longrightarrow> (\<forall>p \<in> set [1, 2, 3]. plain_decimal p)" by simp
  from evicted_iff_replacement_plain [OF v a p] obtain h
    where h: "run [1, 2, 3] 2 ''FIFO'' = Inr h" "length h = length [1, 2, 3 :: int]"
      and all: "\<forall>i<length h.
        (pageToEvict (h ! i) \<noteq> Null) =
          (\<not> isHit (h ! i) \<and> None \<notin> set (frames_before 2 h i))"
    by blast
  have l: "2 < length h" using h(2) by simp
  with all have one: "(pageToEvict (h ! 2) \<noteq> Null)
      = (\<not> isHit (h ! 2) \<and> None \<notin> set (frames_before 2 h 2))" by blast
  have "case run [1, 2, 3] 2 ''FIFO'' of Inl e \<Rightarrow> False
        | Inr g \<Rightarrow> pageToEvict (g ! 2) = Page 1
            \<and> frames (g ! 2) = (frames_before 2 g 2)[0 := Some 3]"
    by code_simp
  then have "pageToEvict (h ! 2) = Page 1
      \<and> frames (h ! 2) = (frames_before 2 h 2)[0 := Some 3]"
    by (simp add: h(1))
  then show ?thesis using v a h(1) l one by blast
qed

text \<open>
  C10, where the code departs from it. In the OPTIMAL run on \<open>[10^21, 2, 3]\<close> with 2 frames
  the step on page 3 is a replacement fault: the frames it starts from are full and do not
  hold page 3. The key chosen is that of page \<open>10^21\<close>, \<open>"1e+21"\<close>, which \<open>parseInt\<close> reads
  as 1. The snapshot records page 1 as evicted, a page that was not resident; no slot is
  overwritten, the frames are those of the previous snapshot, and the referenced page is
  not loaded.
\<close>

theorem evicted_page_not_resident_at_exponent_key:
  "run [10 ^ 21, 2, 3] 2 ''OPTIMAL'' = Inr unparsed_key_run
   \<and> length unparsed_key_run = 3
   \<and> \<not> isHit (unparsed_key_run ! 2)
   \<and> frames_before 2 unparsed_key_run 2 = [Some (10 ^ 21), Some 2]
   \<and> pageToEvict (unparsed_key_run ! 2) = Page 1
   \<and> Some 1 \<notin> set (frames_before 2 unparsed_key_run 2)
   \<and> frames (unparsed_key_run ! 2) = frames_before 2 unparsed_key_run 2
   \<and> Some 3 \<notin> set (frames (unparsed_key_run ! 2))"
  by code_simp

text \<open>
  C7. For a valid input and each of the three policies, the non-empty entries of every
  snapshot's FrameSet are pairwise different; for FIFO and LRU the pages in the snapshot's
  helper structure are exactly the non-empty entries of its FrameSet (and the helper
  structure lists each of them once).
\<close>

theorem frames_distinct_helper_matches:
  assumes "valid_input pages frameCount" and "recognised algorithm"
  shows "\<exists>h. run pages frameCount algorithm = Inr h \<and> length h = length pages \<and>
           (\<forall>i<length h.
              distinct (pagesInFrames (frames (h ! i)))
              \<and> (algorithm = ''FIFO'' \<or> algorithm = ''LRU'' \<longrightarrow>
                   set (helperQueue (h ! i)) = set (pagesInFrames (frames (h ! i)))
                   \<and> distinct (helperQueue (h ! i))))"
proof -
  note r = valid_input_range [OF assms(1)]
  from run_steps [OF assms] obtain h
    where h: "run pages frameCount algorithm = Inr h" "length h = length pages"
      and all: "\<And>i. i < length pages \<Longrightarrow> distinct (pagesInFrames (frames (h ! i)))"
    by blast
  have helper: "set (helperQueue (h ! i)) = set (pagesInFrames (frames (h ! i)))
      \<and> distinct (helperQueue (h ! i))"
    if i: "i < length pages" and alg: "algorithm = ''FIFO'' \<or> algorithm = ''LRU''" for i
  proof -
    from alg show ?thesis
    proof
      assume f: "algorithm = ''FIFO''"
      have "h = historyV (forEach fifo_body pages 0 (start_vars frameCount))"
        using h(1) f runFIFO_loop [OF r(1,3), of pages] by (simp add: run_def)
      then show ?thesis
        using order_run_helper [OF fifo_engine_step fifo_order_step r(4) i] by simp
    next
      assume l: "algorithm = ''LRU''"
      have "h = historyV (forEach lru_body pages 0 (start_vars frameCount))"
        using h(1) l runLRU_loop [OF r(1,3), of pages] by (simp add: run_def)
      then show ?thesis
        using order_run_helper [OF lru_engine_step lru_order_step r(4) i] by simp
    qed
  qed
  have "\<forall>i<length h. distinct (pagesInFrames (frames (h ! i)))
      \<and> (algorithm = ''FIFO'' \<or> algorithm = ''LRU'' \<longrightarrow>
           set (helperQueue (h ! i)) = set (pagesInFrames (frames (h ! i)))
           \<and> distinct (helperQueue (h ! i)))"
    using all helper h(2) by simp
  then show ?thesis using h by blast
qed

theorem frames_distinct_helper_matches_witness:
  "valid_input [3, 1, 3, 2] 2 \<and> recognised ''LRU'' \<and>
   (\<exists>h. run [3, 1, 3, 2] 2 ''LRU'' = Inr h \<and> 3 < length h
      \<and> distinct (pagesInFrames (frames (h ! 3)))
      \<and> set (helperQueue (h ! 3)) = set (pagesInFrames (frames (h ! 3)))
      \<and> helperQueue (h ! 3) = [2, 3] \<and> frames (h ! 3) = [Some 3, Some 2])"
proof -
  have v: "valid_input [3, 1, 3, 2] 2" by (simp add: valid_input_def)
  have a: "recognised ''LRU''" by (simp add: recognised_def)
  from frames_distinct_helper_matches [OF v a] obtain h
    where h: "run [3, 1, 3, 2] 2 ''LRU'' = Inr h" "length h = length [3, 1, 3, 2 :: int]"
      and all: "\<forall>i<length h. distinct (pagesInFrames (frames (h ! i)))
            \<and> (''LRU'' = ''FIFO'' \<or> ''LRU'' = ''LRU'' \<longrightarrow>
                 set (helperQueue (h ! i)) = set (pagesInFrames (frames (h ! i)))
                 \<and> distinct (helperQueue (h ! i)))"
    by blast
  have l: "3 < length h" using h(2) by simp
  with all have one: "distinct (pagesInFrames (frames (h ! 3)))"
    "set (helperQueue (h ! 3)) = set (pagesInFrames (frames (h ! 3)))" by auto
  have "case run [3, 1, 3, 2] 2 ''LRU'' of Inl e \<Rightarrow> False
        | Inr g \<Rightarrow> helperQueue (g ! 3) = [2, 3] \<and> frames (g ! 3) = [Some 3, Some 2]"
    by code_simp
  then have "helperQueue (h ! 3) = [2, 3] \<and> frames (h ! 3) = [Some 3, Some 2]"
    by (simp add: h(1))
  then show ?thesis using v a h(1) l one by blast
qed

text \<open>
  C1. For every non-empty page sequence and frame count in \<open>[1,10]\<close>, the FIFO run treats
  its queue purely by insertion order. A hit leaves the queue as it was. A compulsory fault
  appends the loaded page to the back. A replacement fault evicts the page at the front of
  the queue, which is resident, removes it from the front and appends the loaded page to
  the back. Hence at every point of the run the pages loaded so far, in load order, are the
  pages evicted so far, in eviction order, followed by the current queue: pages leave in
  exactly the order they came in, whatever hits happened in between.
\<close>

theorem fifo_evicts_in_load_order:
  assumes "valid_input pages frameCount"
  shows "\<exists>h. run pages frameCount ''FIFO'' = Inr h \<and> length h = length pages \<and>
           (\<forall>i<length h.
              (isHit (h ! i) \<longrightarrow>
                 pageToEvict (h ! i) = Null \<and> helperQueue (h ! i) = helper_before h i)
              \<and> (\<not> isHit (h ! i) \<and> None \<in> set (frames_before frameCount h i) \<longrightarrow>
                   pageToEvict (h ! i) = Null
                   \<and> helperQueue (h ! i) = helper_before h i @ [pages ! i])
              \<and> (\<not> isHit (h ! i) \<and> None \<notin> set (frames_before frameCount h i) \<longrightarrow>
                   helper_before h i \<noteq> []
                   \<and> Some (hd (helper_before h i)) \<in> set (frames_before frameCount h i)
                   \<and> pageToEvict (h ! i) = Page (hd (helper_before h i))
                   \<and> helperQueue (h ! i) = tl (helper_before h i) @ [pages ! i]))
           \<and> (\<forall>k\<le>length h.
                loaded_pages (take k h) = evicted_pages (take k h) @ helper_before h k)"
proof -
  note r = valid_input_range [OF assms]
  let ?h = "historyV (forEach fifo_body pages 0 (start_vars frameCount))"
  have run: "run pages frameCount ''FIFO'' = Inr ?h"
    using runFIFO_loop [OF r(1,3), of pages] by (simp add: run_def)
  have len: "length ?h = length pages" using order_run_length [OF fifo_engine_step r(4)] .
  have steps: "\<forall>i<length ?h.
      (isHit (?h ! i) \<longrightarrow>
         pageToEvict (?h ! i) = Null \<and> helperQueue (?h ! i) = helper_before ?h i)
      \<and> (\<not> isHit (?h ! i) \<and> None \<in> set (frames_before frameCount ?h i) \<longrightarrow>
           pageToEvict (?h ! i) = Null
           \<and> helperQueue (?h ! i) = helper_before ?h i @ [pages ! i])
      \<and> (\<not> isHit (?h ! i) \<and> None \<notin> set (frames_before frameCount ?h i) \<longrightarrow>
           helper_before ?h i \<noteq> []
           \<and> Some (hd (helper_before ?h i)) \<in> set (frames_before frameCount ?h i)
           \<and> pageToEvict (?h ! i) = Page (hd (helper_before ?h i))
           \<and> helperQueue (?h ! i) = tl (helper_before ?h i) @ [pages ! i])"
    using fifo_run_step(2,3,4) [OF r(4)] len by simp
  have prefix: "\<forall>k\<le>length ?h.
      loaded_pages (take k ?h) = evicted_pages (take k ?h) @ helper_before ?h k"
    using fifo_run_prefix [OF r(4)] len by simp
  show ?thesis using run len steps prefix by blast
qed

theorem fifo_evicts_in_load_order_witness:
  "valid_input [1, 2, 1, 3, 4] 2 \<and>
   (\<exists>h. run [1, 2, 1, 3, 4] 2 ''FIFO'' = Inr h \<and> length h = 5 \<and> 2 < length h \<and> 3 < length h
      \<and> isHit (h ! 2) \<and> helperQueue (h ! 2) = helper_before h 2
      \<and> \<not> isHit (h ! 3) \<and> None \<notin> set (frames_before 2 h 3)
      \<and> pageToEvict (h ! 3) = Page (hd (helper_before h 3))
      \<and> helperQueue (h ! 3) = tl (helper_before h 3) @ [3]
      \<and> 5 \<le> length h
      \<and> loaded_pages (take 5 h) = evicted_pages (take 5 h) @ helper_before h 5
      \<and> loaded_pages (take 5 h) = [1, 2, 3, 4] \<and> evicted_pages (take 5 h) = [1, 2])"
proof -
  have v: "valid_input [1, 2, 1, 3, 4] 2" by (simp add: valid_input_def)
  from fifo_evicts_in_load_order [OF v] obtain h
    where h: "run [1, 2, 1, 3, 4] 2 ''FIFO'' = Inr h"
      "length h = length [1, 2, 1, 3, 4 :: int]"
      and hit: "\<forall>i<length h. isHit (h ! i) \<longrightarrow>
            pageToEvict (h ! i) = Null \<and> helperQueue (h ! i) = helper_before h i"
      and ev: "\<forall>i<length h. \<not> isHit (h ! i) \<and> None \<notin> set (frames_before 2 h i) \<longrightarrow>
            helper_before h i \<noteq> []
            \<and> Some (hd (helper_before h i)) \<in> set (frames_before 2 h i)
            \<and> pageToEvict (h ! i) = Page (hd (helper_before h i))
            \<and> helperQueue (h ! i) = tl (helper_before h i) @ [[1, 2, 1, 3, 4] ! i]"
      and pre: "\<forall>k\<le>length h.
            loaded_pages (take k h) = evicted_pages (take k h) @ helper_before h k"
    by blast
  have l: "length h = 5" using h(2) by simp
  have "case run [1, 2, 1, 3, 4] 2 ''FIFO'' of Inl e \<Rightarrow> False
        | Inr g \<Rightarrow> isHit (g ! 2) \<and> \<not> isHit (g ! 3) \<and> None \<notin> set (frames_before 2 g 3)
            \<and> loaded_pages (take 5 g) = [1, 2, 3, 4] \<and> evicted_pages (take 5 g) = [1, 2]"
    by code_simp
  then have c: "isHit (h ! 2)" "\<not> isHit (h ! 3)" "None \<notin> set (frames_before 2 h 3)"
    "loaded_pages (take 5 h) = [1, 2, 3, 4]" "evicted_pages (take 5 h) = [1, 2]"
    by (simp_all add: h(1))
  have two: "helperQueue (h ! 2) = helper_before h 2" using hit l c(1) by simp
  have three: "pageToEvict (h ! 3) = Page (hd (helper_before h 3))"
    "helperQueue (h ! 3) = tl (helper_before h 3) @ [3]" using ev l c(2,3) by simp_all
  have "5 \<le> length h" using l by simp
  with pre have five: "loaded_pages (take 5 h) = evicted_pages (take 5 h) @ helper_before h 5"
    by blast
  show ?thesis using v h(1) l c two three five by simp
qed

text \<open>
  C2. For every non-empty page sequence and frame count in \<open>[1,10]\<close>, the LRU run keeps its
  stack ordered most recently used first: after step \<open>i\<close> the stack is the first
  \<open>frameCount\<close> entries of the distinct pages referenced so far, most recent first. A hit on
  a page moves that page (which is on the stack) to the front and keeps the order of the
  others. A compulsory fault puts the loaded page at the front. A replacement fault evicts
  the page at the end of the stack as it was before the step, which is resident, and puts
  the loaded page at the front.
\<close>

theorem lru_stack_most_recent_first:
  assumes "valid_input pages frameCount"
  shows "\<exists>h. run pages frameCount ''LRU'' = Inr h \<and> length h = length pages \<and>
           (\<forall>i<length h.
              helperQueue (h ! i) = take (nat frameCount) (recency_order (take (Suc i) pages))
              \<and> (isHit (h ! i) \<longrightarrow>
                   pageToEvict (h ! i) = Null
                   \<and> pages ! i \<in> set (helper_before h i)
                   \<and> helperQueue (h ! i) = pages ! i # remove1 (pages ! i) (helper_before h i))
              \<and> (\<not> isHit (h ! i) \<and> None \<in> set (frames_before frameCount h i) \<longrightarrow>
                   pageToEvict (h ! i) = Null
                   \<and> helperQueue (h ! i) = pages ! i # helper_before h i)
              \<and> (\<not> isHit (h ! i) \<and> None \<notin> set (frames_before frameCount h i) \<longrightarrow>
                   helper_before h i \<noteq> []
                   \<and> Some (last (helper_before h i)) \<in> set (frames_before frameCount h i)
                   \<and> pageToEvict (h ! i) = Page (last (helper_before h i))
                   \<and> helperQueue (h ! i) = pages ! i # butlast (helper_before h i)))"
proof -
  note r = valid_input_range [OF assms]
  let ?h = "historyV (forEach lru_body pages 0 (start_vars frameCount))"
  have run: "run pages frameCount ''LRU'' = Inr ?h"
    using runLRU_loop [OF r(1,3), of pages] by (simp add: run_def)
  have len: "length ?h = length pages" using order_run_length [OF lru_engine_step r(4)] .
  have rec: "helperQueue (?h ! i) = take (nat frameCount) (recency_order (take (Suc i) pages))"
    if i: "i < length pages" for i
  proof -
    have "Suc i \<le> length pages" using i by simp
    from lru_vars_recency [OF r(4) this]
    show ?thesis unfolding order_run(6) [OF lru_engine_step lru_order_step r(4) i] .
  qed
  have "\<forall>i<length ?h.
      helperQueue (?h ! i) = take (nat frameCount) (recency_order (take (Suc i) pages))
      \<and> (isHit (?h ! i) \<longrightarrow>
           pageToEvict (?h ! i) = Null
           \<and> pages ! i \<in> set (helper_before ?h i)
           \<and> helperQueue (?h ! i) = pages ! i # remove1 (pages ! i) (helper_before ?h i))
      \<and> (\<not> isHit (?h ! i) \<and> None \<in> set (frames_before frameCount ?h i) \<longrightarrow>
           pageToEvict (?h ! i) = Null
           \<and> helperQueue (?h ! i) = pages ! i # helper_before ?h i)
      \<and> (\<not> isHit (?h ! i) \<and> None \<notin> set (frames_before frameCount ?h i) \<longrightarrow>
           helper_before ?h i \<noteq> []
           \<and> Some (last (helper_before ?h i)) \<in> set (frames_before frameCount ?h i)
           \<and> pageToEvict (?h ! i) = Page (last (helper_before ?h i))
           \<and> helperQueue (?h ! i) = pages ! i # butlast (helper_before ?h i))"
    using lru_run_step(3,4,5) [OF r(4)] rec len by simp
  then show ?thesis using run len by blast
qed

theorem lru_stack_most_recent_first_witness:
  "valid_input [1, 2, 1, 3] 2 \<and>
   (\<exists>h. run [1, 2, 1, 3] 2 ''LRU'' = Inr h \<and> 2 < length h \<and> 3 < length h
      \<and> helperQueue (h ! 3) = take (nat 2) (recency_order (take (Suc 3) [1, 2, 1, 3]))
      \<and> isHit (h ! 2)
      \<and> helperQueue (h ! 2) = 1 # remove1 1 (helper_before h 2)
      \<and> helperQueue (h ! 2) = [1, 2]
      \<and> \<not> isHit (h ! 3) \<and> None \<notin> set (frames_before 2 h 3)
      \<and> pageToEvict (h ! 3) = Page (last (helper_before h 3))
      \<and> pageToEvict (h ! 3) = Page 2
      \<and> helperQueue (h ! 3) = 3 # butlast (helper_before h 3)
      \<and> helperQueue (h ! 3) = [3, 1])"
proof -
  have v: "valid_input [1, 2, 1, 3] 2" by (simp add: valid_input_def)
  from lru_stack_most_recent_first [OF v] obtain h
    where h: "run [1, 2, 1, 3] 2 ''LRU'' = Inr h" "length h = length [1, 2, 1, 3 :: int]"
      and rec: "\<forall>i<length h.
            helperQueue (h ! i) = take (nat 2) (recency_order (take (Suc i) [1, 2, 1, 3]))"
      and hit: "\<forall>i<length h. isHit (h ! i) \<longrightarrow>
            pageToEvict (h ! i) = Null
            \<and> [1, 2, 1, 3] ! i \<in> set (helper_before h i)
            \<and> helperQueue (h ! i) = [1, 2, 1, 3] ! i # remove1 ([1, 2, 1, 3] ! i) (helper_before h i)"
      and ev: "\<forall>i<length h. \<not> isHit (h ! i) \<and> None \<notin> set (frames_before 2 h i) \<longrightarrow>
            helper_before h i \<noteq> []
            \<and> Some (last (helper_before h i)) \<in> set (frames_before 2 h i)
            \<and> pageToEvict (h ! i) = Page (last (helper_before h i))
            \<and> helperQueue (h ! i) = [1, 2, 1, 3] ! i # butlast (helper_before h i)"
    by blast
  have l: "length h = 4" using h(2) by simp
  have "case run [1, 2, 1, 3] 2 ''LRU'' of Inl e \<Rightarrow> False
        | Inr g \<Rightarrow> isHit (g ! 2) \<and> \<not> isHit (g ! 3) \<and> None \<notin> set (frames_before 2 g 3)
            \<and> helperQueue (g ! 2) = [1, 2] \<and> helperQueue (g ! 3) = [3, 1]
            \<and> pageToEvict (g ! 3) = Page 2"
    by code_simp
  then have c: "isHit (h ! 2)" "\<not> isHit (h ! 3)" "None \<notin> set (frames_before 2 h 3)"
    "helperQueue (h ! 2) = [1, 2]" "helperQueue (h ! 3) = [3, 1]"
    "pageToEvict (h ! 3) = Page 2"
    by (simp_all add: h(1))
  have "3 < length h" using l by simp
  with rec have three: "helperQueue (h ! 3)
      = take (nat 2) (recency_order (take (Suc 3) [1, 2, 1, 3]))" by blast
  have "2 < length h" using l by simp
  with hit c(1) have two: "helperQueue (h ! 2) = 1 # remove1 1 (helper_before h 2)" by auto
  from ev l c(2,3) have four: "pageToEvict (h ! 3) = Page (last (helper_before h 3))"
    "helperQueue (h ! 3) = 3 # butlast (helper_before h 3)" by simp_all
  show ?thesis using v h(1) l c two three four by simp
qed

text \<open>
  The victim of OPTIMAL on pages that print in plain decimal notation. For every non-empty
  sequence of such pages and frame count in \<open>[1,10]\<close>, at every replacement fault the
  evicted page is resident and no resident page is next referenced later in the remainder
  of the reference string than it is, where a page that does not occur in the remainder
  counts as infinitely far. In particular, when some resident page is never referenced
  again, the evicted page is never referenced again either. Which of several equally
  distant pages is taken is fixed by the run, a function of its input.
\<close>

lemma optimal_evicts_farthest_plain:
  assumes "valid_input pages frameCount" and plain: "\<forall>p \<in> set pages. plain_decimal p"
  shows "\<exists>h. run pages frameCount ''OPTIMAL'' = Inr h \<and> length h = length pages \<and>
           (\<forall>i<length h.
              \<not> isHit (h ! i) \<and> None \<notin> set (frames_before frameCount h i) \<longrightarrow>
                (\<exists>v. pageToEvict (h ! i) = Page v
                   \<and> Some v \<in> set (frames_before frameCount h i)
                   \<and> (\<forall>p. Some p \<in> set (frames_before frameCount h i) \<longrightarrow>
                          next_use_distance (drop (Suc i) pages) p
                            \<le> next_use_distance (drop (Suc i) pages) v)
                   \<and> ((\<exists>p. Some p \<in> set (frames_before frameCount h i)
                            \<and> p \<notin> set (drop (Suc i) pages))
                        \<longrightarrow> v \<notin> set (drop (Suc i) pages))))"
proof -
  note r = valid_input_range [OF assms(1)]
  let ?h = "historyV (forEach (opt_step pages) pages 0 (start_vars frameCount))"
  have run: "run pages frameCount ''OPTIMAL'' = Inr ?h"
    using runOptimal_loop [OF r(2,3), of pages] by (simp add: run_def)
  have I0: "0 < nat frameCount \<and> frames_ok (nat frameCount) (start_vars frameCount)"
    using r(4) start_frames_ok by simp
  have len: "length ?h = length pages"
    using engine_length [OF opt_engine_step I0] by (simp add: start_vars_simps)
  have "\<exists>v. pageToEvict (?h ! i) = Page v
         \<and> Some v \<in> set (frames_before frameCount ?h i)
         \<and> (\<forall>p. Some p \<in> set (frames_before frameCount ?h i) \<longrightarrow>
                next_use_distance (drop (Suc i) pages) p
                  \<le> next_use_distance (drop (Suc i) pages) v)
         \<and> ((\<exists>p. Some p \<in> set (frames_before frameCount ?h i)
                  \<and> p \<notin> set (drop (Suc i) pages))
              \<longrightarrow> v \<notin> set (drop (Suc i) pages))"
    if i: "i < length pages" and miss: "\<not> isHit (?h ! i)"
      and full: "None \<notin> set (frames_before frameCount ?h i)" for i
  proof -
    from opt_run_step [OF r(4) i plain miss full] obtain v
      where v: "pageToEvict (?h ! i) = Page v" "Some v \<in> set (frames_before frameCount ?h i)"
        and far: "\<And>p. Some p \<in> set (frames_before frameCount ?h i) \<Longrightarrow>
                next_use_distance (drop (Suc i) pages) p
                  \<le> next_use_distance (drop (Suc i) pages) v"
      unfolding futureUse_distance by blast
    have "v \<notin> set (drop (Suc i) pages)"
      if "\<exists>p. Some p \<in> set (frames_before frameCount ?h i) \<and> p \<notin> set (drop (Suc i) pages)"
    proof -
      from that obtain p where p: "Some p \<in> set (frames_before frameCount ?h i)"
        "p \<notin> set (drop (Suc i) pages)" by blast
      from far [OF p(1)] p(2) have "next_use_distance (drop (Suc i) pages) v = \<infinity>"
        by (simp add: next_use_distance_def)
      then show ?thesis by (simp add: next_use_distance_def split: if_splits)
    qed
    then show ?thesis using v far by blast
  qed
  then show ?thesis using run len by auto
qed

lemma optimal_evicts_farthest_plain_example:
  "valid_input [1, 2, 3, 1] 2 \<and>
   (\<exists>h. run [1, 2, 3, 1] 2 ''OPTIMAL'' = Inr h \<and> 2 < length h
      \<and> \<not> isHit (h ! 2) \<and> None \<notin> set (frames_before 2 h 2)
      \<and> pageToEvict (h ! 2) = Page 2
      \<and> Some 2 \<in> set (frames_before 2 h 2) \<and> Some 1 \<in> set (frames_before 2 h 2)
      \<and> next_use_distance (drop (Suc 2) [1, 2, 3, 1]) 1
          \<le> next_use_distance (drop (Suc 2) [1, 2, 3, 1]) 2
      \<and> next_use_distance (drop (Suc 2) [1, 2, 3, 1]) 1 = 0
      \<and> next_use_distance (drop (Suc 2) [1, 2, 3, 1]) 2 = \<infinity>)"
proof -
  have v: "valid_input [1, 2, 3, 1] 2" by (simp add: valid_input_def)
  have p: "\<forall>p \<in> set [1, 2, 3, 1]. plain_decimal p" by (simp add: plain_decimal_def)
  from optimal_evicts_farthest_plain [OF v p] obtain h
    where h: "run [1, 2, 3, 1] 2 ''OPTIMAL'' = Inr h" "length h = length [1, 2, 3, 1 :: int]"
      and all: "\<forall>i<length h.
        \<not> isHit (h ! i) \<and> None \<notin> set (frames_before 2 h i) \<longrightarrow>
          (\<exists>v. pageToEvict (h ! i) = Page v
             \<and> Some v \<in> set (frames_before 2 h i)
             \<and> (\<forall>p. Some p \<in> set (frames_before 2 h i) \<longrightarrow>
                    next_use_distance (drop (Suc i) [1, 2, 3, 1]) p
                      \<le> next_use_distance (drop (Suc i) [1, 2, 3, 1]) v)
             \<and> ((\<exists>p. Some p \<in> set (frames_before 2 h i)
                      \<and> p \<notin> set (drop (Suc i) [1, 2, 3, 1]))
                  \<longrightarrow> v \<notin> set (drop (Suc i) [1, 2, 3, 1])))"
    by blast
  have l: "2 < length h" using h(2) by simp
  have "case run [1, 2, 3, 1] 2 ''OPTIMAL'' of Inl e \<Rightarrow> False
        | Inr g \<Rightarrow> \<not> isHit (g ! 2) \<and> None \<notin> set (frames_before 2 g 2)
            \<and> pageToEvict (g ! 2) = Page 2 \<and> Some 1 \<in> set (frames_before 2 g 2)"
    by code_simp
  then have c: "\<not> isHit (h ! 2)" "None \<notin> set (frames_before 2 h 2)"
    "pageToEvict (h ! 2) = Page 2" "Some 1 \<in> set (frames_before 2 h 2)"
    by (simp_all add: h(1))
  from all l c(1,2) obtain w where w: "pageToEvict (h ! 2) = Page w"
    "Some w \<in> set (frames_before 2 h 2)"
    "\<forall>p. Some p \<in> set (frames_before 2 h 2) \<longrightarrow>
        next_use_distance (drop (Suc 2) [1, 2, 3, 1]) p
          \<le> next_use_distance (drop (Suc 2) [1, 2, 3, 1]) w" by blast
  have w2: "w = 2" using w(1) c(3) by simp
  have far: "next_use_distance (drop (Suc 2) [1, 2, 3, 1]) 1
      \<le> next_use_distance (drop (Suc 2) [1, 2, 3, 1]) 2" using w(3) c(4) w2 by blast
  have d: "next_use_distance (drop (Suc 2) [1, 2, 3, 1]) 1 = 0"
    "next_use_distance (drop (Suc 2) [1, 2, 3, 1]) 2 = \<infinity>"
    by (simp_all add: next_use_distance_def zero_enat_def)
  show ?thesis using v h(1) l c w(2) w2 far d by blast
qed

text \<open>
  C3, where the code departs from it. In the OPTIMAL run on \<open>[10^21, 1, 3, 1]\<close> with 2
  frames the step on page 3 is a replacement fault on the frames \<open>[10^21, 1]\<close>. Page
  \<open>10^21\<close> is never referenced again and page 1 is the very next reference. The key chosen
  is that of page \<open>10^21\<close>, \<open>"1e+21"\<close>, which \<open>parseInt\<close> reads as 1: the run evicts page 1,
  the resident page with the nearest next use, and keeps the page that is infinitely far.
\<close>

theorem optimal_evicts_nearest_at_exponent_key:
  "run [10 ^ 21, 1, 3, 1] 2 ''OPTIMAL'' = Inr exponent_key_run
   \<and> length exponent_key_run = 4
   \<and> \<not> isHit (exponent_key_run ! 2)
   \<and> frames_before 2 exponent_key_run 2 = [Some (10 ^ 21), Some 1]
   \<and> pageToEvict (exponent_key_run ! 2) = Page 1
   \<and> frames (exponent_key_run ! 2) = [Some (10 ^ 21), Some 3]
   \<and> next_use_distance (drop (Suc 2) [10 ^ 21, 1, 3, 1]) 1 = enat 0
   \<and> next_use_distance (drop (Suc 2) [10 ^ 21, 1, 3, 1]) (10 ^ 21) = \<infinity>
   \<and> \<not> next_use_distance (drop (Suc 2) [10 ^ 21, 1, 3, 1]) (10 ^ 21)
         \<le> next_use_distance (drop (Suc 2) [10 ^ 21, 1, 3, 1]) 1"
  by code_simp

text \<open>
  C4, as the code behaves. On the reference string \<open>[7,0,1,2,0,3,0,4,2,3,0,3,2]\<close> with 3
  frames the FIFO run ends with 10 faults, the LRU run with 9 and the OPTIMAL run with 7,
  which is no more than either. The counts 9 for FIFO and 10 for LRU do not occur.
\<close>

theorem concrete_fault_counts:
  "fault_count [7, 0, 1, 2, 0, 3, 0, 4, 2, 3, 0, 3, 2] 3 ''FIFO'' = Some 10
   \<and> fault_count [7, 0, 1, 2, 0, 3, 0, 4, 2, 3, 0, 3, 2] 3 ''LRU'' = Some 9
   \<and> fault_count [7, 0, 1, 2, 0, 3, 0, 4, 2, 3, 0, 3, 2] 3 ''OPTIMAL'' = Some 7"
  by code_simp

theorem concrete_fault_counts_counterexample:
  "\<not> (fault_count [7, 0, 1, 2, 0, 3, 0, 4, 2, 3, 0, 3, 2] 3 ''FIFO'' = Some 9
      \<and> fault_count [7, 0, 1, 2, 0, 3, 0, 4, 2, 3, 0, 3, 2] 3 ''LRU'' = Some 10)"
  by code_simp

text \<open>
  C8. \<open>run\<close> fails with the unsupported-policy error exactly when the policy is not one of
  FIFO, LRU, OPTIMAL. For a non-empty page sequence, a frame count in \<open>[1,10]\<close> and a
  recognised policy it returns a history: none of the exceptions of the model (the thrown
  error, the RangeError of \<open>new Array\<close>, the TypeError of \<open>reduce\<close> on an empty array) is
  raised. The result is a function of the three arguments alone, the source reading no
  other state, so equal inputs give equal histories.
\<close>

theorem run_fails_only_on_unknown_policy:
  "(run pages frameCount algorithm = Inl UnsupportedPolicy \<longleftrightarrow> \<not> recognised algorithm)
   \<and> (valid_input pages frameCount \<and> recognised algorithm \<longrightarrow>
        (\<exists>h. run pages frameCount algorithm = Inr h))
   \<and> (\<forall>pages' frameCount' algorithm'.
        pages' = pages \<and> frameCount' = frameCount \<and> algorithm' = algorithm \<longrightarrow>
          run pages' frameCount' algorithm' = run pages frameCount algorithm)"
proof -
  have "run pages frameCount algorithm = Inl UnsupportedPolicy \<longleftrightarrow> \<not> recognised algorithm"
  proof
    assume e: "run pages frameCount algorithm = Inl UnsupportedPolicy"
    show "\<not> recognised algorithm"
    proof
      assume "recognised algorithm"
      then consider "algorithm = ''FIFO''" | "algorithm = ''LRU''" | "algorithm = ''OPTIMAL''"
        unfolding recognised_def by blast
      then show False
      proof cases
        case 1
        with e have "runFIFO pages frameCount = Inl UnsupportedPolicy" by (simp add: run_def)
        from runFIFO_error [OF this] show False by (simp add: UnsupportedPolicy_def)
      next
        case 2
        with e have "runLRU pages frameCount = Inl UnsupportedPolicy" by (simp add: run_def)
        from runLRU_error [OF this] show False by (simp add: UnsupportedPolicy_def)
      next
        case 3
        with e have "runOptimal pages frameCount = Inl UnsupportedPolicy"
          by (simp add: run_def)
        from runOptimal_error [OF this] show False by (simp add: UnsupportedPolicy_def)
      qed
    qed
  next
    assume "\<not> recognised algorithm"
    then show "run pages frameCount algorithm = Inl UnsupportedPolicy"
      by (simp add: run_def recognised_def UnsupportedPolicy_def)
  qed
  moreover have "\<exists>h. run pages frameCount algorithm = Inr h"
    if "valid_input pages frameCount \<and> recognised algorithm"
    using run_engine [of pages frameCount algorithm] that by blast
  ultimately show ?thesis by blast
qed

theorem run_fails_only_on_unknown_policy_witness:
  "run [1, 2] 2 ''MRU'' = Inl UnsupportedPolicy \<and> \<not> recognised ''MRU''
   \<and> valid_input [1, 2] 2 \<and> recognised ''OPTIMAL''
   \<and> (\<exists>h. run [1, 2] 2 ''OPTIMAL'' = Inr h)
   \<and> run [1, 2] 2 ''OPTIMAL'' \<noteq> Inl UnsupportedPolicy"
proof -
  have n: "\<not> recognised ''MRU''" by (simp add: recognised_def)
  have v: "valid_input [1, 2] 2" by (simp add: valid_input_def)
  have a: "recognised ''OPTIMAL''" by (simp add: recognised_def)
  from run_fails_only_on_unknown_policy [of "[1, 2]" 2 "''MRU''"] n
  have one: "run [1, 2] 2 ''MRU'' = Inl UnsupportedPolicy" by blast
  from run_fails_only_on_unknown_policy [of "[1, 2]" 2 "''OPTIMAL''"] v a
  have two: "\<exists>h. run [1, 2] 2 ''OPTIMAL'' = Inr h"
    and three: "run [1, 2] 2 ''OPTIMAL'' \<noteq> Inl UnsupportedPolicy" by blast+
  show ?thesis using n v a one two three by blast
qed

section \<open>Properties of the playback controller\<close>










subsection \<open>The cursor stays within one step of the watermark\<close>





subsection \<open>The log narrates increasing snapshot indices\<close>










subsection \<open>Appending, and stepping back and forth\<close>










end
